theory Spec2Isabelle
  imports Main "HOL-Library.Word" "HOL-Library.Monad_Syntax"
begin

unbundle bit_operations_syntax

section \<open>Reader registry and Left-Right container (mpm/leftright.hpp, the last file of src/README.md)\<close>

text \<open>
  The model is sequential: one thread runs one operation to completion. A value of
  \<open>std::atomic\<close> is the value it holds, the memory orders have no counterpart, and the
  write mutex of \<open>basic_leftright\<close> is always free when \<open>modify\<close> asks for it.
\<close>

text \<open>
  \<open>atomic_reader_registry\<close>: one counter \<open>std::atomic_uint_fast32_t m_count{0}\<close>.
  \<open>std::uint_fast32_t\<close> is taken 64 bits wide; \<open>fetch_add\<close> and \<open>fetch_sub\<close> wrap.
\<close>

type_synonym uint_fast32_t = "64 word"

record atomic_reader_registry =
  m_count :: uint_fast32_t

definition atomic_reader_registry :: atomic_reader_registry where
  "atomic_reader_registry = \<lparr> m_count = 0 \<rparr>"

definition arrive :: "atomic_reader_registry \<Rightarrow> atomic_reader_registry" where
  "arrive r = r\<lparr> m_count := m_count r + 1 \<rparr>"

definition depart :: "atomic_reader_registry \<Rightarrow> atomic_reader_registry" where
  "depart r = r\<lparr> m_count := m_count r - 1 \<rparr>"

definition registry_empty :: "atomic_reader_registry \<Rightarrow> bool" where
  "registry_empty r = (0 = m_count r)"

text \<open>\<open>enum lr { read_left, read_right }\<close>\<close>

datatype lr = read_left | read_right

text \<open>
  \<open>basic_leftright<T, ReaderRegistry>\<close> with \<open>ReaderRegistry = atomic_reader_registry\<close>
  (the alias \<open>leftright<T>\<close>). \<open>m_reader_registries\<close> is the \<open>std::array\<close> of two
  registries, \<open>m_registry_index\<close> the \<open>std::atomic_size_t\<close> (only ever 0 or 1).
\<close>

record 't basic_leftright =
  m_reader_registries :: "atomic_reader_registry list"
  m_registry_index :: nat
  m_leftright :: lr
  m_left :: 't
  m_right :: 't

text \<open>
  The three constructors. All of them build \<open>m_left\<close> from the seed (or the forwarded
  arguments) and \<open>m_right\<close> as a copy; the other members take their default initialisers.
\<close>

definition basic_leftright :: "'t \<Rightarrow> 't basic_leftright" where
  "basic_leftright seed =
     \<lparr> m_reader_registries = [atomic_reader_registry, atomic_reader_registry],
       m_registry_index = 0,
       m_leftright = read_left,
       m_left = seed,
       m_right = seed \<rparr>"

text \<open>
  \<open>scoped_read_indication\<close> holds a reference to one registry of the array; the reference
  is the index of that cell. The constructor calls \<open>arrive\<close>, the destructor \<open>depart\<close>.
\<close>

definition scoped_read_indication :: "nat \<Rightarrow> 't basic_leftright \<Rightarrow> 't basic_leftright" where
  "scoped_read_indication m_reg s =
     s\<lparr> m_reader_registries :=
          (m_reader_registries s)[m_reg := arrive (m_reader_registries s ! m_reg)] \<rparr>"

definition scoped_read_indication_dtor :: "nat \<Rightarrow> 't basic_leftright \<Rightarrow> 't basic_leftright" where
  "scoped_read_indication_dtor m_reg s =
     s\<lparr> m_reader_registries :=
          (m_reader_registries s)[m_reg := depart (m_reader_registries s ! m_reg)] \<rparr>"

text \<open>
  An exception thrown by a functor is a value: \<open>Inl e\<close> is the exit by exception \<open>e\<close>,
  \<open>Inr r\<close> the normal return of \<open>r\<close>.
\<close>

datatype exn = exception string

text \<open>
  \<open>observe(F f)\<close>. The functor receives the active copy; it also receives the container
  itself, since the code it runs may reach the same container again (a handler that
  publishes opens a nested \<open>observe\<close>) and since other fields may change while the reader
  is inside. The local \<open>sri\<close> is destroyed on both exits of the scope.
\<close>

definition observe ::
  "('t \<Rightarrow> 't basic_leftright \<Rightarrow> (exn + 'r) \<times> 't basic_leftright) \<Rightarrow>
   't basic_leftright \<Rightarrow> (exn + 'r) \<times> 't basic_leftright" where
  "observe f s =
     (let idx = m_registry_index s;
          s1 = scoped_read_indication idx s
      in case (if read_left = m_leftright s1 then f (m_left s1) s1 else f (m_right s1) s1) of
           (Inr r, s2) \<Rightarrow> (Inr r, scoped_read_indication_dtor idx s2)
         | (Inl e, s2) \<Rightarrow> (Inl e, scoped_read_indication_dtor idx s2))"

text \<open>
  The two loops of \<open>toggle_reader_registry\<close>:
  \<open>while(!m_reader_registries[i].empty()) std::this_thread::yield();\<close>.
  No other thread runs, so the registry read by the loop never changes: the loop
  returns at once on an empty registry and never returns (\<open>None\<close>) otherwise.
\<close>

partial_function (option) yield_until_empty :: "atomic_reader_registry list \<Rightarrow> nat \<Rightarrow> unit option" where
  "yield_until_empty regs i =
     (if registry_empty (regs ! i) then Some () else yield_until_empty regs i)"

definition toggle_reader_registry :: "'t basic_leftright \<Rightarrow> 't basic_leftright option" where
  "toggle_reader_registry s =
     (let current = m_registry_index s;
          next = (current + 1) AND 1
      in do {
           _ \<leftarrow> yield_until_empty (m_reader_registries s) next;
           let s1 = s\<lparr> m_registry_index := next \<rparr>;
           _ \<leftarrow> yield_until_empty (m_reader_registries s1) current;
           Some s1
         })"

text \<open>
  \<open>modify(F f)\<close>. The functor is an object passed by value and called twice; what it
  captured may change between the calls (the random number of the source's comment).
  A functor is therefore a function of its captured state \<open>'c\<close> and of the copy it is
  applied to, returning its result, the mutated copy and its new captured state.
  \<open>modify\<close> returns the result of the second call; \<open>None\<close> is a toggle that never returns.
\<close>

type_synonym ('c, 't, 'r) function_object = "'c \<Rightarrow> 't \<Rightarrow> 'r \<times> 't \<times> 'c"

definition modify ::
  "('c, 't, 'r) function_object \<Rightarrow> 'c \<Rightarrow> 't basic_leftright \<Rightarrow> ('r \<times> 't basic_leftright) option" where
  "modify f c s =
     (if read_left = m_leftright s then
        (case f c (m_right s) of (r1, right', c1) \<Rightarrow>
           do {
             s1 \<leftarrow> toggle_reader_registry (s\<lparr> m_right := right', m_leftright := read_right \<rparr>);
             case f c1 (m_left s1) of (r2, left', c2) \<Rightarrow> Some (r2, s1\<lparr> m_left := left' \<rparr>)
           })
      else
        (case f c (m_left s) of (r1, left', c1) \<Rightarrow>
           do {
             s1 \<leftarrow> toggle_reader_registry (s\<lparr> m_left := left', m_leftright := read_left \<rparr>);
             case f c1 (m_right s1) of (r2, right', c2) \<Rightarrow> Some (r2, s1\<lparr> m_right := right' \<rparr>)
           })
     )"

section \<open>C++ types seen by the bus\<close>

text \<open>
  The templates of the bus compute on types, so types are values here.
  \<open>nullptr_t\<close> is \<open>std::nullptr_t\<close>, \<open>event\<close> is \<open>mpm::detail::event\<close>,
  \<open>polymorphic_event T Base\<close> and \<open>adapted_event Base\<close> are the instances of the two
  class templates, and \<open>struct n\<close> is a class declared by the user under the name \<open>n\<close>.
\<close>

type_synonym cname = string

datatype ctype =
    nullptr_t
  | event
  | polymorphic_event ctype ctype
  | adapted_event ctype
  | struct cname

text \<open>
  \<open>struct null_t {}\<close> and \<open>template <typename Head, typename Tail = null_t> struct typelist\<close>
  (mpm/typelist.hpp): a typelist is \<open>null_t\<close> or a head type and a tail.
\<close>

datatype typelist = null_t | typelist ctype typelist

text \<open>
  The user's class declarations, most recent first. A declaration \<open>(n, b, d)\<close> is
  \<open>struct n : b { using dispatch_as = d; ... };\<close>: public, with at most one direct
  base \<open>b\<close>, and with a member type \<open>dispatch_as\<close> of its own when \<open>d\<close> is given. Its
  base refers to the declarations after it in the list. A name with no declaration is
  a class without bases and without members.
\<close>

type_synonym program = "(cname \<times> ctype option \<times> typelist option) list"

text \<open>\<open>std::is_class<T>::value\<close>\<close>

fun is_class :: "ctype \<Rightarrow> bool" where
  "is_class nullptr_t = False"
| "is_class _ = True"

text \<open>
  The classes of the base class subobjects of an object of class \<open>T\<close>, \<open>T\<close> itself first.
  \<open>polymorphic_event<T, Base>\<close> derives from \<open>Base\<close>; \<open>adapted_event<Base>\<close> derives from
  \<open>detail::event\<close> and from \<open>Base\<close>.
\<close>

fun supers :: "program \<Rightarrow> ctype \<Rightarrow> ctype list" where
  "supers p nullptr_t = []"
| "supers p event = [event]"
| "supers p (polymorphic_event T Base) = polymorphic_event T Base # supers p Base"
| "supers p (adapted_event Base) = adapted_event Base # event # supers p Base"
| "supers [] (struct n) = [struct n]"
| "supers ((m, b, d) # p) (struct n) =
     (if m = n then struct n # (case b of None \<Rightarrow> [] | Some Base \<Rightarrow> supers p Base)
      else supers p (struct n))"

text \<open>\<open>std::is_base_of<Base, Derived>::value\<close>\<close>

definition is_base_of :: "program \<Rightarrow> ctype \<Rightarrow> ctype \<Rightarrow> bool" where
  "is_base_of p Base Derived = (Base \<in> set (supers p Derived))"

text \<open>
  An object is known by the class it was created as (its most derived class).
  \<open>dynamic_cast<const E*>(&e)\<close> on a \<open>const detail::event& e\<close> that refers to the
  object yields a non-null pointer when \<open>E\<close> is the class of the object or the class of
  one of its base class subobjects.
\<close>

datatype object = object (most_derived: ctype)

definition dynamic_cast :: "program \<Rightarrow> ctype \<Rightarrow> object \<Rightarrow> bool" where
  "dynamic_cast p E e = (E \<in> set (supers p (most_derived e)))"

section \<open>Typelists (mpm/typelist.hpp, the first file of src/include/mpm/typelist.h)\<close>

text \<open>
  \<open>for_each_helper<F, TL>\<close> and \<open>for_each_type<TL>(f)\<close>: \<open>f.template operator()<T>()\<close>
  for the head, then the tail; nothing for \<open>null_t\<close>. What a call of the functor does is
  the list of handler calls it makes, so the iteration returns the calls in order.
\<close>

fun for_each_helper :: "(ctype \<Rightarrow> 'a list) \<Rightarrow> typelist \<Rightarrow> 'a list" where
  "for_each_helper f (typelist head tail) = f head @ for_each_helper f tail"
| "for_each_helper f null_t = []"

definition for_each_type :: "typelist \<Rightarrow> (ctype \<Rightarrow> 'a list) \<Rightarrow> 'a list" where
  "for_each_type TL f = for_each_helper f TL"

section \<open>Dispatch chains (mpm/polymorphic_event.hpp in src/unnamed/part_001, mpm/eventbus.hpp)\<close>

text \<open>
  The member type \<open>E::dispatch_as\<close> as name lookup finds it; \<open>None\<close> when \<open>E\<close> has no such
  member. \<open>detail::event\<close> declares \<open>null_t\<close>, \<open>polymorphic_event<T, Base>\<close> declares
  \<open>typelist<T, typename Base::dispatch_as>\<close>, \<open>adapted_event<Base>\<close> declares
  \<open>typelist<Base>\<close>. In a user class the member the class declares itself is found
  first and hides the one of its base; a class that declares none inherits the member
  of its base.
\<close>

fun dispatch_as :: "program \<Rightarrow> ctype \<Rightarrow> typelist option" where
  "dispatch_as p nullptr_t = None"
| "dispatch_as p event = Some null_t"
| "dispatch_as p (polymorphic_event T Base) = map_option (typelist T) (dispatch_as p Base)"
| "dispatch_as p (adapted_event Base) = Some (typelist Base null_t)"
| "dispatch_as [] (struct n) = None"
| "dispatch_as ((m, b, d) # p) (struct n) =
     (if m = n then
        (case d of
           Some own \<Rightarrow> Some own
         | None \<Rightarrow> (case b of None \<Rightarrow> None | Some Base \<Rightarrow> dispatch_as p Base))
      else dispatch_as p (struct n))"

text \<open>
  \<open>detail::dispatch_typelist<E>::type\<close>. The condition names \<open>E::dispatch_as::head\<close>, so
  the instance is ill-formed (\<open>None\<close>) when \<open>E\<close> has no \<open>dispatch_as\<close> or when it is
  \<open>null_t\<close>, which has no \<open>head\<close>.
\<close>

definition dispatch_typelist :: "program \<Rightarrow> ctype \<Rightarrow> typelist option" where
  "dispatch_typelist p E =
     (case dispatch_as p E of
        None \<Rightarrow> None
      | Some null_t \<Rightarrow> None
      | Some (typelist head tail) \<Rightarrow>
          Some (if E = head then typelist head tail else typelist E (typelist head tail)))"

section \<open>Type-erased subscribers and cookies (mpm/eventbus.hpp, the second file of src/include/mpm/typelist.h)\<close>

text \<open>
  \<open>type_erased_subscriber::id_t\<close> is \<open>std::intptr_t\<close>, 64 bits; only equality is used.
  \<open>std::type_index(typeid(T))\<close> is equal for equal types only, so it is the type.
\<close>

type_synonym id_t = "64 word"
type_synonym type_index = ctype

text \<open>
  The heap object behind \<open>m_self\<close>: the primary template \<open>model<E, H>\<close> (for an \<open>E\<close>
  derived from \<open>detail::event\<close>; delivery is a \<open>static_cast\<close>) or its specialisation for
  the other \<open>E\<close> (delivery is a \<open>dynamic_cast\<close> that may fail). The object is never
  written after construction, so every copy of the \<open>shared_ptr\<close> carries it along with
  its address.
\<close>

datatype 'h model = model_static ctype 'h | model_dynamic ctype 'h

record 'h type_erased_subscriber =
  m_self :: id_t
  pointee :: "'h model"

text \<open>
  The constructor \<open>type_erased_subscriber(handler, alloc, (E*) ptr)\<close>. \<open>this_addr\<close> is the
  address at which \<open>std::allocate_shared\<close> created the model.
\<close>

definition type_erased_subscriber ::
  "program \<Rightarrow> 'h \<Rightarrow> id_t \<Rightarrow> ctype \<Rightarrow> 'h type_erased_subscriber" where
  "type_erased_subscriber p handler this_addr E =
     \<lparr> m_self = this_addr,
       pointee = (if is_base_of p event E then model_static E handler
                  else model_dynamic E handler) \<rparr>"

text \<open>\<open>type_erased_subscriber::id()\<close>\<close>

definition subscriber_id :: "'h type_erased_subscriber \<Rightarrow> id_t" where
  "subscriber_id s = m_self s"

text \<open>
  A run of a handler: the handler \<open>fn\<close> stored in the model object at address
  \<open>this_ptr\<close> is called with the event viewed as a \<open>const arg_type&\<close>.
\<close>

datatype 'h call = call (this_ptr: id_t) (fn: 'h) (arg_type: ctype)

text \<open>\<open>model<E, H>::deliver(const detail::event& e)\<close>, both versions\<close>

fun model_deliver :: "program \<Rightarrow> id_t \<Rightarrow> 'h model \<Rightarrow> object \<Rightarrow> 'h call list" where
  "model_deliver p this (model_static E handler) e = [call this handler E]"
| "model_deliver p this (model_dynamic E handler) e =
     (if dynamic_cast p E e then [call this handler E] else [])"

text \<open>\<open>type_erased_subscriber::deliver(const event& e)\<close>\<close>

definition subscriber_deliver ::
  "program \<Rightarrow> 'h type_erased_subscriber \<Rightarrow> object \<Rightarrow> 'h call list" where
  "subscriber_deliver p s e = model_deliver p (m_self s) (pointee s) e"

text \<open>\<open>detail::cookie\<close> and its two constructors\<close>

record cookie =
  id_c :: id_t
  ti :: type_index

definition cookie_default :: cookie where
  "cookie_default = \<lparr> id_c = 0, ti = nullptr_t \<rparr>"

definition cookie :: "id_t \<Rightarrow> type_index \<Rightarrow> cookie" where
  "cookie i t = \<lparr> id_c = i, ti = t \<rparr>"

section \<open>The subscriber table\<close>

text \<open>
  \<open>subs_multimap\<close> is a \<open>std::unordered_multimap<std::type_index, type_erased_subscriber>\<close>.
  The bus reaches it through \<open>equal_range\<close>, \<open>emplace\<close> and \<open>erase(iterator)\<close> only, so the
  container is known by its equal ranges: for each key, the records with that key in
  the order in which an iteration over \<open>equal_range\<close> meets them. An iterator into the
  range of a key is the key and an offset.

  The C++ standard keeps equal keys adjacent and has \<open>erase\<close> keep the relative order
  of the elements that stay, and it leaves open where among the elements of equal key
  \<open>emplace\<close> puts a new one (the hash table of libstdc++ links the new node in front of
  the first node of equal key). That choice is the parameter \<open>place\<close>: given the present
  range, the offset at which the new record appears.
\<close>

type_synonym 'h subs_multimap = "type_index \<Rightarrow> 'h type_erased_subscriber list"

type_synonym 'h placement = "'h type_erased_subscriber list \<Rightarrow> nat"

definition equal_range :: "'h subs_multimap \<Rightarrow> type_index \<Rightarrow> 'h type_erased_subscriber list" where
  "equal_range subs k = subs k"

definition emplace ::
  "'h placement \<Rightarrow> 'h subs_multimap \<Rightarrow> type_index \<Rightarrow> 'h type_erased_subscriber \<Rightarrow> 'h subs_multimap" where
  "emplace place subs k v =
     subs(k := take (place (subs k)) (subs k) @ v # drop (place (subs k)) (subs k))"

definition erase :: "'h subs_multimap \<Rightarrow> type_index \<times> nat \<Rightarrow> 'h subs_multimap" where
  "erase subs pos = (case pos of (k, i) \<Rightarrow> subs(k := take i (subs k) @ drop (Suc i) (subs k)))"

text \<open>
  \<open>detail::deliver<SubsMap>::operator()<T>()\<close>: every record of the equal range of
  \<open>typeid(T)\<close>, in iteration order, is asked to deliver \<open>m_event\<close>.
\<close>

definition deliver :: "program \<Rightarrow> object \<Rightarrow> 'h subs_multimap \<Rightarrow> ctype \<Rightarrow> 'h call list" where
  "deliver p m_event m_subs T =
     (let handlers = equal_range m_subs T
      in concat (map (\<lambda>pos. subscriber_deliver p pos m_event) handlers))"

section \<open>The event bus (mpm/eventbus.hpp)\<close>

record 'h basic_eventbus =
  m_subscribers :: "'h subs_multimap basic_leftright"

text \<open>The constructor: \<open>m_subscribers(in_place, alloc)\<close>, two empty tables.\<close>

definition basic_eventbus :: "'h basic_eventbus" where
  "basic_eventbus = \<lparr> m_subscribers = basic_leftright (\<lambda>k. []) \<rparr>"

text \<open>
  How an operation of the bus can fail to hand back a result: the call does not compile
  (a \<open>static_assert\<close> fails or a template instance is ill-formed), the call never returns
  (\<open>modify\<close> waits for a reader that will not leave), or an exception reaches a \<open>noexcept\<close>
  boundary.
\<close>

datatype failure = ill_formed | never_returns | terminated

text \<open>
  \<open>publish\<close>, the overload for an \<open>Event\<close> derived from \<open>detail::event\<close>. It returns the
  handler calls made, in order, and the bus afterwards.
\<close>

definition publish_event ::
  "program \<Rightarrow> 'h basic_eventbus \<Rightarrow> ctype \<Rightarrow> object \<Rightarrow> failure + ('h call list \<times> 'h basic_eventbus)" where
  "publish_event p bus Event ev =
     (case dispatch_typelist p Event of
        None \<Rightarrow> Inl ill_formed
      | Some types \<Rightarrow>
          (case observe (\<lambda>subs s. (Inr (for_each_type types (deliver p ev subs)), s))
                        (m_subscribers bus) of
             (Inr calls, s') \<Rightarrow> Inr (calls, bus\<lparr> m_subscribers := s' \<rparr>)
           | (Inl e, s') \<Rightarrow> Inl terminated))"

text \<open>
  \<open>publish\<close>: overload resolution on \<open>std::is_base_of<detail::event, Event>\<close>. The second
  overload asserts a class type, copies the event into a \<open>detail::adapted_event<Event>\<close>
  and publishes that object.
\<close>

definition publish ::
  "program \<Rightarrow> 'h basic_eventbus \<Rightarrow> ctype \<Rightarrow> object \<Rightarrow> failure + ('h call list \<times> 'h basic_eventbus)" where
  "publish p bus Event ev =
     (if is_base_of p event Event then publish_event p bus Event ev
      else if \<not> is_class Event then Inl ill_formed
      else let ae = object (adapted_event Event)
           in publish_event p bus (adapted_event Event) ae)"

text \<open>
  \<open>subscribe<Event>(handler)\<close>. The first \<open>static_assert\<close> wants a class type; the second
  wants a \<open>noexcept\<close> handler, and a handler here is a value that is called and does not
  throw. \<open>this_addr\<close> is the address of the model object that \<open>std::allocate_shared\<close>
  creates for this subscription.
\<close>

definition subscribe ::
  "program \<Rightarrow> 'h placement \<Rightarrow> 'h basic_eventbus \<Rightarrow> ctype \<Rightarrow> 'h \<Rightarrow> id_t \<Rightarrow>
   failure + (cookie \<times> 'h basic_eventbus)" where
  "subscribe p place bus Event handler this_addr =
     (if \<not> is_class Event then Inl ill_formed
      else
        let tesub = type_erased_subscriber p handler this_addr Event
        in case modify (\<lambda>(u::unit) subs.
                          let idx = Event
                          in (cookie (subscriber_id tesub) idx, emplace place subs idx tesub, u))
                       () (m_subscribers bus) of
             None \<Rightarrow> Inl never_returns
           | Some (c, s') \<Rightarrow> Inr (c, bus\<lparr> m_subscribers := s' \<rparr>))"

text \<open>
  The loop of \<open>unsubscribe\<close>: \<open>pos\<close> walks the equal range of \<open>c.ti\<close>; the first record
  whose \<open>id()\<close> is \<open>c.id\<close> is erased and the functor returns. The arguments are the part
  of the range from \<open>pos\<close> on and the offset of \<open>pos\<close>.
\<close>

fun unsubscribe_loop ::
  "cookie \<Rightarrow> 'h subs_multimap \<Rightarrow> 'h type_erased_subscriber list \<Rightarrow> nat \<Rightarrow> 'h subs_multimap" where
  "unsubscribe_loop c subs [] i = subs"
| "unsubscribe_loop c subs (s # rest) i =
     (if subscriber_id s = id_c c then erase subs (ti c, i)
      else unsubscribe_loop c subs rest (Suc i))"

text \<open>The functor that \<open>unsubscribe\<close> hands to \<open>modify\<close>.\<close>

definition unsubscribe_functor :: "cookie \<Rightarrow> 'h subs_multimap \<Rightarrow> 'h subs_multimap" where
  "unsubscribe_functor c subs =
     (let range = equal_range subs (ti c) in unsubscribe_loop c subs range 0)"

definition unsubscribe :: "'h basic_eventbus \<Rightarrow> cookie \<Rightarrow> failure + 'h basic_eventbus" where
  "unsubscribe bus c =
     (case modify (\<lambda>(u::unit) subs. ((), unsubscribe_functor c subs, u)) () (m_subscribers bus) of
        None \<Rightarrow> Inl never_returns
      | Some (r, s') \<Rightarrow> Inr (bus\<lparr> m_subscribers := s' \<rparr>))"

section \<open>Reachable bus states\<close>

text \<open>
  The addresses of the model objects that are alive: those held by a record of either
  copy of the table.
\<close>

definition live :: "'h basic_eventbus \<Rightarrow> id_t set" where
  "live bus =
     {m_self s | s k. s \<in> set (m_left (m_subscribers bus) k)
                    \<or> s \<in> set (m_right (m_subscribers bus) k)}"

text \<open>
  The states of a bus after its constructor and any sequence of completed \<open>subscribe\<close>,
  \<open>unsubscribe\<close> and \<open>publish\<close> calls. An allocation returns an address that is not null
  and not the address of an object that is alive.
\<close>

inductive reachable :: "program \<Rightarrow> 'h placement \<Rightarrow> 'h basic_eventbus \<Rightarrow> bool"
  for p :: program and place :: "'h placement" where
  constructed: "reachable p place basic_eventbus"
| subscribed:
    "reachable p place bus \<Longrightarrow> this_addr \<noteq> 0 \<Longrightarrow> this_addr \<notin> live bus \<Longrightarrow>
     subscribe p place bus Event handler this_addr = Inr (c, bus') \<Longrightarrow>
     reachable p place bus'"
| unsubscribed:
    "reachable p place bus \<Longrightarrow> unsubscribe bus c = Inr bus' \<Longrightarrow> reachable p place bus'"
| published:
    "reachable p place bus \<Longrightarrow> publish p bus Event ev = Inr (calls, bus') \<Longrightarrow>
     reachable p place bus'"

section \<open>Notions used to state the properties\<close>

text \<open>
  A container is quiescent when no reader is inside: the array has its two registries,
  the index names one of them, and both are empty.
\<close>

definition quiescent :: "'t basic_leftright \<Rightarrow> bool" where
  "quiescent s =
     (length (m_reader_registries s) = 2 \<and> m_registry_index s < 2 \<and>
      list_all registry_empty (m_reader_registries s))"

text \<open>The table a reader of the bus is shown: the copy \<open>observe\<close> passes to its functor.\<close>

definition subscriptions :: "'h basic_eventbus \<Rightarrow> 'h subs_multimap" where
  "subscriptions bus =
     (if read_left = m_leftright (m_subscribers bus) then m_left (m_subscribers bus)
      else m_right (m_subscribers bus))"

text \<open>The elements of a typelist, head first; the terminator \<open>null_t\<close> is not one of them.\<close>

fun elements :: "typelist \<Rightarrow> ctype list" where
  "elements null_t = []"
| "elements (typelist head tail) = head # elements tail"

text \<open>
  The typelist \<open>publish<Event>\<close> iterates over and the object it hands to the records,
  by the overload that is chosen.
\<close>

definition dispatch_chain :: "program \<Rightarrow> ctype \<Rightarrow> typelist option" where
  "dispatch_chain p Event =
     (if is_base_of p event Event then dispatch_typelist p Event
      else if \<not> is_class Event then None
      else dispatch_typelist p (adapted_event Event))"

definition delivered_object :: "program \<Rightarrow> ctype \<Rightarrow> object \<Rightarrow> object" where
  "delivered_object p Event ev =
     (if is_base_of p event Event then ev else object (adapted_event Event))"

text \<open>
  The call a record makes when its delivery reaches the handler, and whether the
  delivery of an object reaches the handler.
\<close>

fun model_call :: "id_t \<Rightarrow> 'h model \<Rightarrow> 'h call" where
  "model_call this (model_static E handler) = call this handler E"
| "model_call this (model_dynamic E handler) = call this handler E"

definition handler_call :: "'h type_erased_subscriber \<Rightarrow> 'h call" where
  "handler_call s = model_call (m_self s) (pointee s)"

fun model_accepts :: "program \<Rightarrow> 'h model \<Rightarrow> object \<Rightarrow> bool" where
  "model_accepts p (model_static E handler) e = True"
| "model_accepts p (model_dynamic E handler) e = dynamic_cast p E e"

definition accepts :: "program \<Rightarrow> 'h type_erased_subscriber \<Rightarrow> object \<Rightarrow> bool" where
  "accepts p s e = model_accepts p (pointee s) e"

text \<open>A range without its first record of identity \<open>i\<close>.\<close>

fun erase_first :: "id_t \<Rightarrow> 'h type_erased_subscriber list \<Rightarrow> 'h type_erased_subscriber list" where
  "erase_first i [] = []"
| "erase_first i (s # rest) = (if subscriber_id s = i then rest else s # erase_first i rest)"

text \<open>
  What holds of the table of a bus between operations: every record was made by
  \<open>subscribe\<close> for the key it is stored under, at an address that is not null, and the
  records of one key are different objects.
\<close>

definition table_ok :: "program \<Rightarrow> 'h subs_multimap \<Rightarrow> bool" where
  "table_ok p subs =
     (\<forall>k. (\<forall>s \<in> set (subs k). m_self s \<noteq> 0 \<and> is_class k \<and>
                 (\<exists>h. s = type_erased_subscriber p h (m_self s) k))
          \<and> distinct (map m_self (subs k)))"

definition bus_ok :: "program \<Rightarrow> 'h basic_eventbus \<Rightarrow> bool" where
  "bus_ok p bus =
     (quiescent (m_subscribers bus) \<and>
      m_left (m_subscribers bus) = m_right (m_subscribers bus) \<and>
      table_ok p (m_left (m_subscribers bus)))"

text \<open>
  The container \<open>modify\<close> leaves behind when it started from \<open>s\<close> and returned: the index
  and the active side are switched, and the copies are \<open>l\<close> and \<open>r\<close>.
\<close>

definition after_modify :: "'t basic_leftright \<Rightarrow> 't \<Rightarrow> 't \<Rightarrow> 't basic_leftright" where
  "after_modify s l r =
     s\<lparr> m_registry_index := 1 - m_registry_index s,
        m_leftright := (if read_left = m_leftright s then read_right else read_left),
        m_left := l, m_right := r \<rparr>"

text \<open>
  The requirement of \<open>modify\<close> on its functor: the second call, made with what the first
  call left captured, mutates a copy as the first call mutated an equal copy.
\<close>

definition identical_mutation :: "('c, 't, 'r) function_object \<Rightarrow> 'c \<Rightarrow> bool" where
  "identical_mutation f c =
     (\<forall>t. case f c t of (r1, t1, c1) \<Rightarrow> fst (snd (f c1 t)) = t1)"

text \<open>A sequence of \<open>modify\<close> calls, each with its functor and what it captured.\<close>

fun modify_all ::
  "(('c, 't, 'r) function_object \<times> 'c) list \<Rightarrow> 't basic_leftright \<Rightarrow> 't basic_leftright option" where
  "modify_all [] s = Some s"
| "modify_all (fc # fs) s =
     (case modify (fst fc) (snd fc) s of None \<Rightarrow> None | Some (r, s') \<Rightarrow> modify_all fs s')"

text \<open>
  A functor that is run inside \<open>n\<close> further \<open>observe\<close> calls on the same container, as a
  handler that publishes from within a handler does.
\<close>

fun observe_nested ::
  "nat \<Rightarrow> ('t \<Rightarrow> 't basic_leftright \<Rightarrow> (exn + 'r) \<times> 't basic_leftright) \<Rightarrow>
   't \<Rightarrow> 't basic_leftright \<Rightarrow> (exn + 'r) \<times> 't basic_leftright" where
  "observe_nested 0 f = f"
| "observe_nested (Suc n) f = (\<lambda>t. observe (observe_nested n f))"

text \<open>
  The event classes of the repository's test (test_eventbus.cpp):
  \<open>struct base_event : mpm::polymorphic_event<base_event>\<close>,
  \<open>struct derived_event : mpm::polymorphic_event<derived_event, base_event>\<close>,
  \<open>struct very_derived_event : derived_event\<close> and \<open>struct non_polymorphic_event\<close>.
\<close>

abbreviation base_event :: ctype where
  "base_event \<equiv> struct ''base_event''"

abbreviation derived_event :: ctype where
  "derived_event \<equiv> struct ''derived_event''"

abbreviation very_derived_event :: ctype where
  "very_derived_event \<equiv> struct ''very_derived_event''"

abbreviation non_polymorphic_event :: ctype where
  "non_polymorphic_event \<equiv> struct ''non_polymorphic_event''"

definition test_events :: program where
  "test_events =
     [(''non_polymorphic_event'', None, None),
      (''very_derived_event'', Some derived_event, None),
      (''derived_event'', Some (polymorphic_event derived_event base_event), None),
      (''base_event'', Some (polymorphic_event base_event event), None)]"

section \<open>Properties of the Left-Right container\<close>

subsection \<open>Registries and the toggle\<close>

lemma depart_arrive: "depart (arrive r) = r"
  by (simp add: depart_def arrive_def)

lemma yield_until_empty_returns:
  "registry_empty (regs ! i) \<Longrightarrow> yield_until_empty regs i = Some ()"
  by (subst yield_until_empty.simps) simp

lemma next_index:
  assumes "i < 2"
  shows "(i + 1) AND (1::nat) = 1 - i"
proof -
  from assms have "i = 0 \<or> i = 1" by arith
  then show ?thesis by (auto simp: and_one_eq)
qed

lemma toggle_quiescent:
  assumes "quiescent s"
  shows "toggle_reader_registry s = Some (s\<lparr> m_registry_index := 1 - m_registry_index s \<rparr>)"
proof -
  from assms have idx: "m_registry_index s < 2"
    and emp: "\<And>i. i < 2 \<Longrightarrow> registry_empty (m_reader_registries s ! i)"
    by (auto simp: quiescent_def list_all_length)
  have n: "(m_registry_index s + 1) AND (1::nat) = 1 - m_registry_index s"
    using idx by (rule next_index)
  have lt: "1 - m_registry_index s < 2" by simp
  show ?thesis
    unfolding toggle_reader_registry_def Let_def n
    by (simp add: yield_until_empty_returns emp idx lt)
qed

text \<open>The state in which \<open>modify\<close> leaves a quiescent container.\<close>

lemma modify_quiescent:
  assumes "quiescent s"
  shows "modify f c s =
     (if read_left = m_leftright s then
        (case f c (m_right s) of (r1, right', c1) \<Rightarrow>
           (case f c1 (m_left s) of (r2, left', c2) \<Rightarrow>
              Some (r2, s\<lparr> m_registry_index := 1 - m_registry_index s,
                            m_leftright := read_right, m_left := left', m_right := right' \<rparr>)))
      else
        (case f c (m_left s) of (r1, left', c1) \<Rightarrow>
           (case f c1 (m_right s) of (r2, right', c2) \<Rightarrow>
              Some (r2, s\<lparr> m_registry_index := 1 - m_registry_index s,
                            m_leftright := read_left, m_left := left', m_right := right' \<rparr>))))"
proof -
  have q: "\<And>r d. quiescent (s\<lparr> m_right := r, m_leftright := d \<rparr>)"
          "\<And>l d. quiescent (s\<lparr> m_left := l, m_leftright := d \<rparr>)"
    using assms by (simp_all add: quiescent_def)
  show ?thesis
    unfolding modify_def
    by (simp add: toggle_quiescent q split: prod.splits)
qed

lemma quiescent_basic_leftright: "quiescent (basic_leftright seed)"
  by (simp add: quiescent_def basic_leftright_def registry_empty_def atomic_reader_registry_def)

lemma quiescent_fields:
  "quiescent s \<Longrightarrow>
   quiescent (s\<lparr> m_registry_index := 1 - m_registry_index s, m_leftright := d,
                 m_left := l, m_right := r \<rparr>)"
  by (auto simp: quiescent_def)

text \<open>A reader enters and leaves the same registry: the registries are as before.\<close>

lemma read_indication_restores:
  assumes "m_reader_registries s2 = m_reader_registries (scoped_read_indication i s)"
  shows "m_reader_registries (scoped_read_indication_dtor i s2) = m_reader_registries s"
proof (cases "i < length (m_reader_registries s)")
  case True
  with assms show ?thesis
    by (simp add: scoped_read_indication_def scoped_read_indication_dtor_def depart_arrive)
next
  case False
  then have "length (m_reader_registries s) \<le> i" by simp
  with assms show ?thesis
    by (simp add: scoped_read_indication_def scoped_read_indication_dtor_def list_update_beyond)
qed

lemma observe_registries:
  assumes "\<And>t u. m_reader_registries (snd (f t u)) = m_reader_registries u"
  shows "m_reader_registries (snd (observe f s)) = m_reader_registries s"
proof -
  let ?s1 = "scoped_read_indication (m_registry_index s) s"
  let ?res = "if read_left = m_leftright ?s1 then f (m_left ?s1) ?s1 else f (m_right ?s1) ?s1"
  have "m_reader_registries (snd ?res) = m_reader_registries ?s1"
    using assms by simp
  then have "m_reader_registries (scoped_read_indication_dtor (m_registry_index s) (snd ?res))
             = m_reader_registries s"
    by (rule read_indication_restores)
  then show ?thesis
    unfolding observe_def Let_def
    by (cases ?res; cases "fst ?res") (auto split: sum.splits)
qed


lemma modify_stateless:
  assumes "quiescent s"
  shows "modify (\<lambda>(u::unit) t. (g t, h t, ())) () s =
           Some (g (if read_left = m_leftright s then m_left s else m_right s),
                 after_modify s (h (m_left s)) (h (m_right s)))"
  by (simp add: modify_quiescent [OF assms] after_modify_def)

lemma quiescent_after_modify: "quiescent s \<Longrightarrow> quiescent (after_modify s l r)"
  by (auto simp: quiescent_def after_modify_def)

lemma after_modify_fields [simp]:
  "m_left (after_modify s l r) = l" "m_right (after_modify s l r) = r"
  "m_reader_registries (after_modify s l r) = m_reader_registries s"
  by (simp_all add: after_modify_def)

lemma after_modify_twice:
  "m_registry_index s < 2 \<Longrightarrow>
   after_modify (after_modify s l r) (m_left s) (m_right s) = s"
  by (cases "m_leftright s") (auto simp: after_modify_def)

lemma observe_pure:
  "observe (\<lambda>t u. (Inr (g t), u)) s =
     (Inr (g (if read_left = m_leftright s then m_left s else m_right s)), s)"
proof -
  let ?i = "m_registry_index s"
  have "m_reader_registries (scoped_read_indication_dtor ?i (scoped_read_indication ?i s))
        = m_reader_registries s"
    by (rule read_indication_restores) simp
  then have "scoped_read_indication_dtor ?i (scoped_read_indication ?i s) = s"
    by (simp add: scoped_read_indication_dtor_def scoped_read_indication_def)
  then show ?thesis
    by (simp add: observe_def Let_def) (simp add: scoped_read_indication_def)
qed

lemma modify_identical:
  assumes q: "quiescent s" and eq: "m_left s = m_right s" and im: "identical_mutation f c"
  shows "\<exists>r s'. modify f c s = Some (r, s') \<and> quiescent s' \<and> m_left s' = m_right s'"
proof -
  obtain r1 t1 c1 where f1: "f c (m_left s) = (r1, t1, c1)"
    by (cases "f c (m_left s)") auto
  obtain r2 t2 c2 where f2: "f c1 (m_left s) = (r2, t2, c2)"
    by (cases "f c1 (m_left s)") auto
  from im f1 f2 have t: "t2 = t1"
    by (auto simp: identical_mutation_def split: prod.splits dest!: spec [of _ "m_left s"])
  have "modify f c s = Some (r2, after_modify s t1 t1)"
    using f1 f2 t eq by (simp add: modify_quiescent [OF q] after_modify_def)
  moreover have "quiescent (after_modify s t1 t1)"
    using q by (rule quiescent_after_modify)
  ultimately show ?thesis by simp
qed

lemma modify_all_identical:
  assumes "\<forall>fc \<in> set fs. identical_mutation (fst fc) (snd fc)"
      and "quiescent s" and "m_left s = m_right s"
  shows "\<exists>s'. modify_all fs s = Some s' \<and> quiescent s' \<and> m_left s' = m_right s'"
  using assms
proof (induction fs arbitrary: s)
  case Nil
  then show ?case by simp
next
  case (Cons fc fs)
  from Cons.prems have "identical_mutation (fst fc) (snd fc)" by simp
  from modify_identical [OF Cons.prems(2,3) this]
  obtain r s1 where m: "modify (fst fc) (snd fc) s = Some (r, s1)"
    and q1: "quiescent s1" and e1: "m_left s1 = m_right s1" by blast
  from Cons.prems have "\<forall>fc \<in> set fs. identical_mutation (fst fc) (snd fc)" by simp
  from Cons.IH [OF this q1 e1] m show ?case by simp
qed

lemma observe_nested_registries:
  assumes "\<And>t u. m_reader_registries (snd (f t u)) = m_reader_registries u"
  shows "m_reader_registries (snd (observe_nested n f t u)) = m_reader_registries u"
proof (induction n arbitrary: t u)
  case 0
  show ?case using assms by simp
next
  case (Suc n)
  show ?case using observe_registries [of "observe_nested n f" u, OF Suc.IH] by simp
qed

lemma observe_unfold:
  "observe g s =
     (case g (if read_left = m_leftright s then m_left s else m_right s)
             (scoped_read_indication (m_registry_index s) s) of
        (r, s2) \<Rightarrow> (r, scoped_read_indication_dtor (m_registry_index s) s2))"
  by (simp add: observe_def Let_def scoped_read_indication_def split: prod.splits sum.splits)

section \<open>Claims about the Left-Right container\<close>

text \<open>
  Claim C2. A container is built with equal copies, and after any sequence of \<open>modify\<close>
  calls whose functors apply the identical mutation on both of their calls, every call
  has returned and the left and right copies are equal.
\<close>

theorem modify_keeps_copies_equal:
  assumes "\<forall>fc \<in> set fs. identical_mutation (fst fc) (snd fc)"
  shows "m_left (basic_leftright seed) = m_right (basic_leftright seed) \<and>
         (\<exists>s'. modify_all fs (basic_leftright seed) = Some s' \<and> m_left s' = m_right s')"
proof -
  have e: "m_left (basic_leftright seed) = m_right (basic_leftright seed)"
    by (simp add: basic_leftright_def)
  from modify_all_identical [OF assms quiescent_basic_leftright e] e
  show ?thesis by blast
qed

theorem modify_keeps_copies_equal_witness:
  "identical_mutation (\<lambda>(u::unit) (xs::nat list). (length xs, 7 # xs, u)) () \<and>
   identical_mutation (\<lambda>(u::unit) (xs::nat list). (length xs, tl xs, u)) () \<and>
   (\<exists>s'. modify_all [(\<lambda>(u::unit) (xs::nat list). (length xs, 7 # xs, u), ()),
                      (\<lambda>(u::unit) (xs::nat list). (length xs, tl xs, u), ())]
             (basic_leftright [1]) = Some s' \<and> m_left s' = m_right s')"
proof -
  have h1: "identical_mutation (\<lambda>(u::unit) (xs::nat list). (length xs, 7 # xs, u)) ()"
    by (simp add: identical_mutation_def)
  have h2: "identical_mutation (\<lambda>(u::unit) (xs::nat list). (length xs, tl xs, u)) ()"
    by (simp add: identical_mutation_def)
  have h: "\<forall>fc \<in> set [(\<lambda>(u::unit) (xs::nat list). (length xs, 7 # xs, u), ()),
                 (\<lambda>(u::unit) (xs::nat list). (length xs, tl xs, u), ())].
      identical_mutation (fst fc) (snd fc)"
    using h1 h2 by simp
  from modify_keeps_copies_equal [OF h, of "[1]"] h1 h2 show ?thesis by blast
qed

text \<open>
  Claim C8. \<open>observe\<close> reads the registry index once, on entry: its functor runs with
  exactly that registry arrived at once, and on either exit (return or exception) that
  same registry is departed from once, whatever the index has become meanwhile.
  Consequently, when the innermost functor leaves the registries as it found them,
  any number of nested \<open>observe\<close> calls leave every registry as it was on entry.
\<close>

theorem observe_arrives_and_departs_once:
  assumes "\<forall>t u. m_reader_registries (snd (f t u)) = m_reader_registries u"
  shows "observe g s =
           (case g (if read_left = m_leftright s then m_left s else m_right s)
                   (s\<lparr> m_reader_registries :=
                        (m_reader_registries s)
                          [m_registry_index s := arrive (m_reader_registries s ! m_registry_index s)] \<rparr>) of
              (r, s2) \<Rightarrow>
                (r, s2\<lparr> m_reader_registries :=
                          (m_reader_registries s2)
                            [m_registry_index s := depart (m_reader_registries s2 ! m_registry_index s)] \<rparr>))
         \<and> m_reader_registries (snd (observe (observe_nested n f) s)) = m_reader_registries s"
proof -
  have "m_reader_registries (snd (observe (observe_nested n f) s)) = m_reader_registries s"
    by (rule observe_registries) (simp add: observe_nested_registries assms)
  then show ?thesis
    by (simp add: observe_unfold [of g] scoped_read_indication_def scoped_read_indication_dtor_def)
qed

theorem observe_arrives_and_departs_once_witness:
  "(\<forall>t u. m_reader_registries
            (snd ((\<lambda>(t::nat) u. (Inl (exception ''thrown'') :: exn + nat,
                                 u\<lparr> m_registry_index := 1 - m_registry_index u \<rparr>)) t u))
          = m_reader_registries u) \<and>
   m_reader_registries
     (snd (observe (observe_nested 2
                      (\<lambda>(t::nat) u. (Inl (exception ''thrown'') :: exn + nat,
                                     u\<lparr> m_registry_index := 1 - m_registry_index u \<rparr>)))
                   (basic_leftright 5)))
     = [atomic_reader_registry, atomic_reader_registry]"
proof -
  let ?f = "\<lambda>(t::nat) u. (Inl (exception ''thrown'') :: exn + nat,
                           u\<lparr> m_registry_index := 1 - m_registry_index u \<rparr>)"
  have h: "\<forall>t u. m_reader_registries (snd (?f t u)) = m_reader_registries u" by simp
  have r: "m_reader_registries (basic_leftright (5::nat))
           = [atomic_reader_registry, atomic_reader_registry]"
    by (simp add: basic_leftright_def)
  have c: "m_reader_registries (snd (observe (observe_nested 2 ?f) (basic_leftright 5)))
           = m_reader_registries (basic_leftright (5::nat))"
    using observe_arrives_and_departs_once [OF h, of "observe_nested 2 ?f" "basic_leftright 5" 2]
    by (rule conjunct2)
  from h c [unfolded r] show ?thesis by (rule conjI)
qed


section \<open>Properties of the bus operations\<close>

lemma for_each_type_elements: "for_each_type TL f = concat (map f (elements TL))"
  unfolding for_each_type_def by (induction TL) simp_all

lemma subscriber_deliver_eq:
  "subscriber_deliver p s e = (if accepts p s e then [handler_call s] else [])"
  by (cases "pointee s") (simp_all add: subscriber_deliver_def accepts_def handler_call_def)

lemma publish_event_eq:
  "publish_event p bus Event ev =
     (case dispatch_typelist p Event of
        None \<Rightarrow> Inl ill_formed
      | Some types \<Rightarrow>
          Inr (concat (map (deliver p ev (subscriptions bus)) (elements types)), bus))"
  by (simp add: publish_event_def observe_pure for_each_type_elements subscriptions_def
           split: option.splits)

lemma publish_eq:
  "publish p bus Event ev =
     (case dispatch_chain p Event of
        None \<Rightarrow> Inl ill_formed
      | Some types \<Rightarrow>
          Inr (concat (map (deliver p (delivered_object p Event ev) (subscriptions bus))
                           (elements types)), bus))"
proof (cases "is_base_of p event Event")
  case True
  then have "delivered_object p Event ev = ev"
    by (simp add: delivered_object_def)
  with True show ?thesis
    by (simp add: publish_def publish_event_eq dispatch_chain_def split: option.splits)
next
  case False
  then have "delivered_object p Event ev = object (adapted_event Event)"
    by (simp add: delivered_object_def)
  with False show ?thesis
    by (simp add: publish_def publish_event_eq dispatch_chain_def Let_def split: option.splits)
qed

lemma unsubscribe_loop_eq:
  "subs (ti c) = pre @ rng \<Longrightarrow>
   unsubscribe_loop c subs rng (length pre) = subs(ti c := pre @ erase_first (id_c c) rng)"
proof (induction rng arbitrary: pre)
  case Nil
  then show ?case by (simp add: fun_upd_idem)
next
  case (Cons s rest)
  show ?case
  proof (cases "subscriber_id s = id_c c")
    case True
    with Cons.prems show ?thesis by (simp add: erase_def)
  next
    case False
    from Cons.prems have "subs (ti c) = (pre @ [s]) @ rest" by simp
    from Cons.IH [OF this] False show ?thesis by simp
  qed
qed

lemma unsubscribe_functor_eq:
  "unsubscribe_functor c subs = subs(ti c := erase_first (id_c c) (subs (ti c)))"
  using unsubscribe_loop_eq [of subs c "[]" "subs (ti c)"]
  by (simp add: unsubscribe_functor_def equal_range_def)

lemma subscribe_eq:
  assumes "quiescent (m_subscribers bus)" and "is_class Event"
  shows "subscribe p place bus Event h a =
           Inr (cookie a Event,
                bus\<lparr> m_subscribers :=
                  after_modify (m_subscribers bus)
                    (emplace place (m_left (m_subscribers bus)) Event (type_erased_subscriber p h a Event))
                    (emplace place (m_right (m_subscribers bus)) Event (type_erased_subscriber p h a Event)) \<rparr>)"
  using assms(2)
  by (simp add: subscribe_def Let_def modify_stateless [OF assms(1)] subscriber_id_def
                type_erased_subscriber_def cookie_def)

lemma unsubscribe_eq:
  assumes "quiescent (m_subscribers bus)"
  shows "unsubscribe bus c =
           Inr (bus\<lparr> m_subscribers :=
                  after_modify (m_subscribers bus)
                    (unsubscribe_functor c (m_left (m_subscribers bus)))
                    (unsubscribe_functor c (m_right (m_subscribers bus))) \<rparr>)"
  by (simp add: unsubscribe_def modify_stateless [OF assms])



subsection \<open>Ranges\<close>

lemma set_insert_at: "set (take n xs @ v # drop n xs) = insert v (set xs)"
proof -
  have "set xs = set (take n xs) \<union> set (drop n xs)"
    by (metis append_take_drop_id set_append)
  then show ?thesis by auto
qed

lemma distinct_insert_at:
  assumes "distinct (map f xs)" and "f v \<notin> f ` set xs"
  shows "distinct (map f (take n xs @ v # drop n xs))"
proof -
  let ?ys = "map f xs"
  have "set (take n ?ys) \<inter> set (drop n ?ys) = {}"
    using assms(1) by (intro set_take_disj_set_drop_if_distinct) simp_all
  moreover have "f v \<notin> set (take n ?ys)" "f v \<notin> set (drop n ?ys)"
    using assms(2) by (auto dest: in_set_takeD in_set_dropD)
  moreover have "distinct (take n ?ys)" "distinct (drop n ?ys)"
    using assms(1) by simp_all
  ultimately have "distinct (take n ?ys @ f v # drop n ?ys)" by auto
  then show ?thesis by (simp add: take_map drop_map)
qed

lemma set_erase_first: "set (erase_first i xs) \<subseteq> set xs"
  by (induction xs) auto

lemma distinct_erase_first:
  "distinct (map f xs) \<Longrightarrow> distinct (map f (erase_first i xs))"
proof (induction xs)
  case Nil
  then show ?case by simp
next
  case (Cons s xs)
  then show ?case using set_erase_first [of i xs] by auto
qed

lemma erase_first_absent:
  "\<forall>s \<in> set xs. subscriber_id s \<noteq> i \<Longrightarrow> erase_first i xs = xs"
  by (induction xs) auto

lemma erase_first_gone:
  "distinct (map m_self xs) \<Longrightarrow> \<forall>s \<in> set (erase_first i xs). subscriber_id s \<noteq> i"
proof (induction xs)
  case Nil
  then show ?case by simp
next
  case (Cons s xs)
  show ?case
  proof (cases "subscriber_id s = i")
    case True
    with Cons.prems have "\<forall>x \<in> set xs. m_self x \<noteq> i"
      by (simp add: subscriber_id_def) blast
    with True show ?thesis by (simp add: subscriber_id_def)
  next
    case False
    with Cons show ?thesis by simp
  qed
qed

lemma erase_first_split:
  "(\<forall>s \<in> set xs. subscriber_id s \<noteq> i) \<and> erase_first i xs = xs \<or>
   (\<exists>pre s post. xs = pre @ s # post \<and> subscriber_id s = i \<and>
       (\<forall>x \<in> set pre. subscriber_id x \<noteq> i) \<and> erase_first i xs = pre @ post)"
proof (induction xs)
  case Nil
  then show ?case by simp
next
  case (Cons s xs)
  show ?case
  proof (cases "subscriber_id s = i")
    case True
    then have "s # xs = [] @ s # xs \<and> subscriber_id s = i \<and>
        (\<forall>x \<in> set []. subscriber_id x \<noteq> i) \<and> erase_first i (s # xs) = [] @ xs"
      by simp
    then show ?thesis by blast
  next
    case False
    from Cons.IH show ?thesis
    proof
      assume "(\<forall>s \<in> set xs. subscriber_id s \<noteq> i) \<and> erase_first i xs = xs"
      with False show ?thesis by simp
    next
      assume "\<exists>pre t post. xs = pre @ t # post \<and> subscriber_id t = i \<and>
                (\<forall>x \<in> set pre. subscriber_id x \<noteq> i) \<and> erase_first i xs = pre @ post"
      then obtain pre t post where "xs = pre @ t # post" "subscriber_id t = i"
        "\<forall>x \<in> set pre. subscriber_id x \<noteq> i" "erase_first i xs = pre @ post" by blast
      with False have "s # xs = (s # pre) @ t # post \<and> subscriber_id t = i \<and>
          (\<forall>x \<in> set (s # pre). subscriber_id x \<noteq> i) \<and> erase_first i (s # xs) = (s # pre) @ post"
        by simp
      then show ?thesis by blast
    qed
  qed
qed

lemma erase_first_insert_at:
  assumes "subscriber_id v = i" and "\<forall>s \<in> set xs. subscriber_id s \<noteq> i"
  shows "erase_first i (take n xs @ v # drop n xs) = xs"
proof -
  have "\<forall>s \<in> set ys. subscriber_id s \<noteq> i \<Longrightarrow> erase_first i (ys @ v # zs) = ys @ zs" for ys zs
    using assms(1) by (induction ys) auto
  from this [of "take n xs" "drop n xs"] assms(2) show ?thesis
    by (auto dest: in_set_takeD)
qed

subsection \<open>The table invariant\<close>

lemma table_ok_empty: "table_ok p (\<lambda>k. [])"
  by (simp add: table_ok_def)

lemma table_ok_emplace:
  assumes ok: "table_ok p subs" and a: "a \<noteq> 0" and cls: "is_class E"
      and fresh: "a \<notin> m_self ` set (subs E)"
  shows "table_ok p (emplace place subs E (type_erased_subscriber p h a E))"
proof -
  let ?v = "type_erased_subscriber p h a E"
  let ?T = "emplace place subs E ?v"
  let ?n = "place (subs E)"
  have m: "m_self ?v = a" by (simp add: type_erased_subscriber_def)
  have at_E: "?T E = take ?n (subs E) @ ?v # drop ?n (subs E)"
    by (simp add: emplace_def)
  have other: "?T k = subs k" if "k \<noteq> E" for k
    using that by (simp add: emplace_def)
  from ok have recs: "\<And>k s. s \<in> set (subs k) \<Longrightarrow>
      m_self s \<noteq> 0 \<and> is_class k \<and> (\<exists>h. s = type_erased_subscriber p h (m_self s) k)"
    and dist: "\<And>k. distinct (map m_self (subs k))"
    by (simp_all add: table_ok_def)
  have new: "m_self ?v \<noteq> 0 \<and> is_class E \<and> (\<exists>h'. ?v = type_erased_subscriber p h' (m_self ?v) E)"
    unfolding m using a cls by blast
  have "m_self s \<noteq> 0 \<and> is_class k \<and> (\<exists>h. s = type_erased_subscriber p h (m_self s) k)"
    if "s \<in> set (?T k)" for k s
  proof (cases "k = E")
    case True
    with that have "s = ?v \<or> s \<in> set (subs E)" by (simp only: at_E set_insert_at) simp
    with new recs [of s E] True show ?thesis by blast
  next
    case False
    with that recs [of s k] show ?thesis by (simp add: other)
  qed
  moreover have "distinct (map m_self (?T k))" for k
  proof (cases "k = E")
    case True
    have "distinct (map m_self (take ?n (subs E) @ ?v # drop ?n (subs E)))"
      using dist [of E] fresh by (intro distinct_insert_at) (simp_all add: m)
    with True show ?thesis by (simp only: at_E)
  next
    case False
    with dist [of k] show ?thesis by (simp add: other)
  qed
  ultimately show ?thesis unfolding table_ok_def by blast
qed

lemma table_ok_unsubscribe:
  assumes "table_ok p subs"
  shows "table_ok p (unsubscribe_functor c subs)"
  using assms set_erase_first [of "id_c c" "subs (ti c)"]
  unfolding table_ok_def unsubscribe_functor_eq
  by (auto simp: distinct_erase_first)

lemma bus_ok_constructed: "bus_ok p basic_eventbus"
  by (simp add: bus_ok_def basic_eventbus_def quiescent_basic_leftright table_ok_empty)
     (simp add: basic_leftright_def table_ok_empty)

lemma not_live:
  "a \<notin> live bus \<Longrightarrow> a \<notin> m_self ` set (m_left (m_subscribers bus) k)"
  by (auto simp: live_def)

lemma bus_ok_subscribe:
  assumes ok: "bus_ok p bus" and a: "a \<noteq> 0" and fresh: "a \<notin> live bus"
      and sub: "subscribe p place bus Event h a = Inr (c, bus')"
  shows "bus_ok p bus'"
proof -
  from sub have cls: "is_class Event"
    by (auto simp: subscribe_def split: if_splits)
  from ok have q: "quiescent (m_subscribers bus)" by (simp add: bus_ok_def)
  from ok have eq: "m_right (m_subscribers bus) = m_left (m_subscribers bus)"
    unfolding bus_ok_def by simp
  from sub have b': "bus' = bus\<lparr> m_subscribers :=
        after_modify (m_subscribers bus)
          (emplace place (m_left (m_subscribers bus)) Event (type_erased_subscriber p h a Event))
          (emplace place (m_left (m_subscribers bus)) Event (type_erased_subscriber p h a Event)) \<rparr>"
    by (simp add: subscribe_eq [OF q cls] eq)
  from ok have t: "table_ok p (m_left (m_subscribers bus))" unfolding bus_ok_def by blast
  have "table_ok p (emplace place (m_left (m_subscribers bus)) Event
                      (type_erased_subscriber p h a Event))"
    using t a cls not_live [OF fresh] by (rule table_ok_emplace)
  then show ?thesis
    using q unfolding b' bus_ok_def by (simp add: quiescent_after_modify)
qed

lemma bus_ok_unsubscribe:
  assumes ok: "bus_ok p bus" and un: "unsubscribe bus c = Inr bus'"
  shows "bus_ok p bus'"
proof -
  from ok have q: "quiescent (m_subscribers bus)" by (simp add: bus_ok_def)
  from ok have eq: "m_right (m_subscribers bus) = m_left (m_subscribers bus)"
    unfolding bus_ok_def by simp
  from ok have t: "table_ok p (m_left (m_subscribers bus))" unfolding bus_ok_def by blast
  from un have "bus' = bus\<lparr> m_subscribers :=
        after_modify (m_subscribers bus)
          (unsubscribe_functor c (m_left (m_subscribers bus)))
          (unsubscribe_functor c (m_left (m_subscribers bus))) \<rparr>"
    by (simp add: unsubscribe_eq [OF q] eq)
  then show ?thesis
    using q t unfolding bus_ok_def by (simp add: quiescent_after_modify table_ok_unsubscribe)
qed

lemma publish_same_bus: "publish p bus Event ev = Inr (calls, bus') \<Longrightarrow> bus' = bus"
  by (auto simp: publish_eq split: option.splits)

lemma reachable_bus_ok: "reachable p place bus \<Longrightarrow> bus_ok p bus"
proof (induction rule: reachable.induct)
  case constructed
  show ?case by (rule bus_ok_constructed)
next
  case (subscribed bus this_addr Event handler c bus')
  then show ?case by (auto intro: bus_ok_subscribe)
next
  case (unsubscribed bus c bus')
  then show ?case by (auto intro: bus_ok_unsubscribe)
next
  case (published bus Event ev calls bus')
  then show ?case by (auto dest: publish_same_bus)
qed

lemma subscriptions_ok: "bus_ok p bus \<Longrightarrow> subscriptions bus = m_left (m_subscribers bus)"
  by (simp add: subscriptions_def bus_ok_def)


section \<open>Claims about unsubscribe\<close>

lemma unsubscribe_reachable:
  assumes "bus_ok p bus"
  shows "\<exists>bus'. unsubscribe bus c = Inr bus' \<and> bus_ok p bus' \<and>
           subscriptions bus' = unsubscribe_functor c (subscriptions bus)"
proof -
  from assms have q: "quiescent (m_subscribers bus)" unfolding bus_ok_def by simp
  let ?b = "bus\<lparr> m_subscribers :=
        after_modify (m_subscribers bus)
          (unsubscribe_functor c (m_left (m_subscribers bus)))
          (unsubscribe_functor c (m_right (m_subscribers bus))) \<rparr>"
  have u: "unsubscribe bus c = Inr ?b" by (rule unsubscribe_eq [OF q])
  then have ok: "bus_ok p ?b" using assms by (rule bus_ok_unsubscribe [rotated])
  have "subscriptions ?b = unsubscribe_functor c (subscriptions bus)"
    by (simp add: subscriptions_ok [OF ok] subscriptions_ok [OF assms])
  with u ok show ?thesis by blast
qed

text \<open>
  Claim C9. \<open>unsubscribe(c)\<close> on a quiescent bus returns, having applied its functor to
  both copies of the table. The functor leaves every key other than \<open>c.ti\<close> as it
  is; under \<open>c.ti\<close> either no record has identity \<open>c.id\<close> and the table is unchanged, or
  the first record with identity \<open>c.id\<close> is removed and the records before and after it
  stay as they are, in their order.
\<close>

theorem unsubscribe_erases_first_match:
  assumes "quiescent (m_subscribers bus)"
  shows "(\<exists>bus'. unsubscribe bus c = Inr bus' \<and>
            m_left (m_subscribers bus') = unsubscribe_functor c (m_left (m_subscribers bus)) \<and>
            m_right (m_subscribers bus') = unsubscribe_functor c (m_right (m_subscribers bus))) \<and>
         (\<forall>k. k \<noteq> ti c \<longrightarrow> unsubscribe_functor c subs k = subs k) \<and>
         ((\<forall>s \<in> set (subs (ti c)). subscriber_id s \<noteq> id_c c) \<and> unsubscribe_functor c subs = subs
          \<or> (\<exists>pre s post. subs (ti c) = pre @ s # post \<and> subscriber_id s = id_c c \<and>
                (\<forall>x \<in> set pre. subscriber_id x \<noteq> id_c c) \<and>
                unsubscribe_functor c subs (ti c) = pre @ post))"
proof -
  have "\<exists>bus'. unsubscribe bus c = Inr bus' \<and>
            m_left (m_subscribers bus') = unsubscribe_functor c (m_left (m_subscribers bus)) \<and>
            m_right (m_subscribers bus') = unsubscribe_functor c (m_right (m_subscribers bus))"
    by (simp add: unsubscribe_eq [OF assms])
  moreover have "\<forall>k. k \<noteq> ti c \<longrightarrow> unsubscribe_functor c subs k = subs k"
    by (simp add: unsubscribe_functor_eq)
  moreover have "(\<forall>s \<in> set (subs (ti c)). subscriber_id s \<noteq> id_c c) \<and> unsubscribe_functor c subs = subs
          \<or> (\<exists>pre s post. subs (ti c) = pre @ s # post \<and> subscriber_id s = id_c c \<and>
                (\<forall>x \<in> set pre. subscriber_id x \<noteq> id_c c) \<and>
                unsubscribe_functor c subs (ti c) = pre @ post)"
    using erase_first_split [of "subs (ti c)" "id_c c"]
    by (auto simp: unsubscribe_functor_eq)
  ultimately show ?thesis by blast
qed

text \<open>
  Claim C7. In every reachable state of the bus, \<open>unsubscribe(c)\<close> returns, a second
  \<open>unsubscribe(c)\<close> returns too and leaves the table that the first one left, and when
  no record under \<open>c.ti\<close> has identity \<open>c.id\<close> the first call already leaves the table
  as it was.
\<close>

theorem unsubscribe_idempotent:
  assumes "reachable p place bus"
  shows "\<exists>b1 b2. unsubscribe bus c = Inr b1 \<and> unsubscribe b1 c = Inr b2 \<and>
           subscriptions b2 = subscriptions b1 \<and>
           m_left (m_subscribers b2) = m_left (m_subscribers b1) \<and>
           m_right (m_subscribers b2) = m_right (m_subscribers b1) \<and>
           ((\<forall>s \<in> set (subscriptions bus (ti c)). subscriber_id s \<noteq> id_c c) \<longrightarrow>
              subscriptions b1 = subscriptions bus \<and>
              m_left (m_subscribers b1) = m_left (m_subscribers bus) \<and>
              m_right (m_subscribers b1) = m_right (m_subscribers bus))"
proof -
  from assms have ok: "bus_ok p bus" by (rule reachable_bus_ok)
  from unsubscribe_reachable [OF ok] obtain b1 where
    u1: "unsubscribe bus c = Inr b1" and ok1: "bus_ok p b1"
    and s1: "subscriptions b1 = unsubscribe_functor c (subscriptions bus)" by blast
  from unsubscribe_reachable [OF ok1] obtain b2 where
    u2: "unsubscribe b1 c = Inr b2" and ok2: "bus_ok p b2"
    and s2: "subscriptions b2 = unsubscribe_functor c (subscriptions b1)" by blast
  from ok have "table_ok p (subscriptions bus)"
    unfolding bus_ok_def subscriptions_def by auto
  then have "distinct (map m_self (subscriptions bus (ti c)))"
    by (simp add: table_ok_def)
  then have gone: "\<forall>s \<in> set (erase_first (id_c c) (subscriptions bus (ti c))). subscriber_id s \<noteq> id_c c"
    by (rule erase_first_gone)
  have idem: "unsubscribe_functor c (subscriptions b1) = subscriptions b1"
    unfolding s1 by (simp add: unsubscribe_functor_eq erase_first_absent [OF gone])
  have same: "subscriptions b2 = subscriptions b1" using s2 idem by simp
  have l: "m_left (m_subscribers b) = subscriptions b" "m_right (m_subscribers b) = subscriptions b"
    if "bus_ok p b" for b
    using that unfolding bus_ok_def subscriptions_def by auto
  have absent: "subscriptions b1 = subscriptions bus"
    if "\<forall>s \<in> set (subscriptions bus (ti c)). subscriber_id s \<noteq> id_c c"
    unfolding s1 by (simp add: unsubscribe_functor_eq erase_first_absent [OF that])
  show ?thesis
    using u1 u2 same absent by (auto simp: l [OF ok] l [OF ok1] l [OF ok2])
qed


lemma copies_ok:
  assumes "bus_ok p b"
  shows "m_left (m_subscribers b) = subscriptions b" "m_right (m_subscribers b) = subscriptions b"
    and "table_ok p (subscriptions b)"
  using assms unfolding bus_ok_def subscriptions_def by auto

lemma live_ok:
  assumes "bus_ok p b"
  shows "live b = {m_self s | s k. s \<in> set (subscriptions b k)}"
  unfolding live_def copies_ok [OF assms] by simp

lemma subscribe_reachable:
  assumes ok: "bus_ok p bus" and cls: "is_class Event"
  shows "\<exists>bus'. subscribe p place bus Event h a = Inr (cookie a Event, bus') \<and>
           subscriptions bus' =
             emplace place (subscriptions bus) Event (type_erased_subscriber p h a Event) \<and>
           m_left (m_subscribers bus') = subscriptions bus' \<and>
           m_right (m_subscribers bus') = subscriptions bus' \<and>
           quiescent (m_subscribers bus') \<and>
           unsubscribe bus' (cookie a Event) =
             Inr (bus\<lparr> m_subscribers :=
                   (m_subscribers bus)
                     \<lparr> m_left := unsubscribe_functor (cookie a Event) (subscriptions bus'),
                       m_right := unsubscribe_functor (cookie a Event) (subscriptions bus') \<rparr> \<rparr>)"
proof -
  from ok have q: "quiescent (m_subscribers bus)" unfolding bus_ok_def by simp
  then have i: "m_registry_index (m_subscribers bus) < 2" by (simp add: quiescent_def)
  let ?T = "emplace place (subscriptions bus) Event (type_erased_subscriber p h a Event)"
  let ?s = "after_modify (m_subscribers bus) ?T ?T"
  let ?b = "bus\<lparr> m_subscribers := ?s \<rparr>"
  have sub: "subscribe p place bus Event h a = Inr (cookie a Event, ?b)"
    by (simp add: subscribe_eq [OF q cls] copies_ok [OF ok])
  have q': "quiescent (m_subscribers ?b)" using q by (simp add: quiescent_after_modify)
  have s': "subscriptions ?b = ?T" by (simp add: subscriptions_def)
  have "after_modify ?s l r = (m_subscribers bus)\<lparr> m_left := l, m_right := r \<rparr>" for l r
    using i by (cases "m_leftright (m_subscribers bus)") (auto simp: after_modify_def)
  then have "unsubscribe ?b (cookie a Event) =
     Inr (bus\<lparr> m_subscribers :=
           (m_subscribers bus)
             \<lparr> m_left := unsubscribe_functor (cookie a Event) ?T,
               m_right := unsubscribe_functor (cookie a Event) ?T \<rparr> \<rparr>)"
    by (simp add: unsubscribe_eq [OF q'])
  with sub q' s' show ?thesis by (intro exI [of _ ?b]) simp
qed

text \<open>
  Claim C10. The default cookie has identity 0 and the type index of \<open>std::nullptr_t\<close>.
  In every reachable state of the bus, \<open>subscribe\<close> for \<open>std::nullptr_t\<close> is rejected at
  compile time, no record is stored under that type index, no record has identity 0,
  and \<open>unsubscribe\<close> of the default cookie returns and leaves both copies of the table
  as they were.
\<close>

theorem unsubscribe_default_cookie:
  assumes "reachable p place bus"
  shows "id_c cookie_default = 0 \<and> ti cookie_default = nullptr_t \<and>
         subscribe p place bus nullptr_t h a = Inl ill_formed \<and>
         subscriptions bus nullptr_t = [] \<and>
         (\<forall>k. \<forall>s \<in> set (subscriptions bus k). subscriber_id s \<noteq> 0) \<and>
         (\<exists>bus'. unsubscribe bus cookie_default = Inr bus' \<and>
                  subscriptions bus' = subscriptions bus \<and>
                  m_left (m_subscribers bus') = m_left (m_subscribers bus) \<and>
                  m_right (m_subscribers bus') = m_right (m_subscribers bus))"
proof -
  from assms have ok: "bus_ok p bus" by (rule reachable_bus_ok)
  note t = copies_ok(3) [OF ok]
  have none: "subscriptions bus nullptr_t = []"
  proof (cases "subscriptions bus nullptr_t")
    case Nil
    then show ?thesis .
  next
    case (Cons s xs)
    then have "s \<in> set (subscriptions bus nullptr_t)" by simp
    with t have "is_class nullptr_t" unfolding table_ok_def by blast
    then show ?thesis by simp
  qed
  have nz: "\<forall>k. \<forall>s \<in> set (subscriptions bus k). subscriber_id s \<noteq> 0"
    using t unfolding table_ok_def subscriber_id_def by blast
  from unsubscribe_reachable [OF ok, of cookie_default] obtain b1 where
    u: "unsubscribe bus cookie_default = Inr b1" and ok1: "bus_ok p b1"
    and s1: "subscriptions b1 = unsubscribe_functor cookie_default (subscriptions bus)" by blast
  have "unsubscribe_functor cookie_default (subscriptions bus) = subscriptions bus"
    by (simp add: unsubscribe_functor_eq cookie_default_def none fun_upd_idem)
  with s1 have same: "subscriptions b1 = subscriptions bus" by simp
  have "subscribe p place bus nullptr_t h a = Inl ill_formed"
    by (simp add: subscribe_def)
  with none nz u same show ?thesis
    by (simp add: cookie_default_def copies_ok(1,2) [OF ok] copies_ok(1,2) [OF ok1])
qed

lemma handler_call_made: "handler_call (type_erased_subscriber p h a k) = call a h k"
  by (simp add: handler_call_def type_erased_subscriber_def)

lemma deliver_calls:
  assumes ok: "table_ok p subs" and x: "x \<in> set (deliver p ev subs k)"
  shows "arg_type x = k \<and> (\<exists>s \<in> set (subs k). this_ptr x = m_self s)"
proof -
  from x obtain s where s: "s \<in> set (subs k)" and xs: "x \<in> set (subscriber_deliver p s ev)"
    by (auto simp: deliver_def equal_range_def)
  from ok s obtain h where "s = type_erased_subscriber p h (m_self s) k"
    unfolding table_ok_def by blast
  then have "handler_call s = call (m_self s) h k"
    using handler_call_made [of p h "m_self s" k] by simp
  moreover from xs have "x = handler_call s"
    by (simp add: subscriber_deliver_eq split: if_splits)
  ultimately show ?thesis using s by auto
qed


lemma publish_calls:
  assumes ok: "table_ok p (subscriptions bus)"
      and pub: "publish p bus E ev = Inr (calls, b)" and x: "x \<in> set calls"
  shows "\<exists>s \<in> set (subscriptions bus (arg_type x)). this_ptr x = m_self s"
proof -
  from pub obtain types where
    "calls = concat (map (deliver p (delivered_object p E ev) (subscriptions bus)) (elements types))"
    by (auto simp: publish_eq split: option.splits)
  with x obtain k where "x \<in> set (deliver p (delivered_object p E ev) (subscriptions bus) k)"
    by auto
  from deliver_calls [OF ok this] show ?thesis by auto
qed

lemma emplace_then_unsubscribe:
  assumes "\<forall>s \<in> set (subs E). subscriber_id s \<noteq> a"
  shows "unsubscribe_functor (cookie a E) (emplace place subs E (type_erased_subscriber p h a E)) = subs"
proof -
  have "subscriber_id (type_erased_subscriber p h a E) = a"
    by (simp add: subscriber_id_def type_erased_subscriber_def)
  from erase_first_insert_at [OF this assms]
  show ?thesis
    by (simp add: unsubscribe_functor_eq emplace_def cookie_def fun_upd_idem)
qed

text \<open>
  Claim C6. In every reachable state, \<open>unsubscribe(c)\<close> returns, and no publish on the
  bus it leaves calls the handler stored at address \<open>c.id\<close> for the type \<open>c.ti\<close>.
  And in every reachable state, a \<open>subscribe\<close> of a handler \<open>h\<close> for a class type
  returns the cookie of the new record, the \<open>unsubscribe\<close> of that cookie right after it
  gives back the bus as it was before the two calls, and no publish on that bus calls
  \<open>h\<close> at the address of the record.
\<close>

theorem unsubscribe_ends_delivery:
  assumes "reachable p place bus" and "reachable p place bus0"
      and "is_class Event" and "a \<noteq> 0" and "a \<notin> live bus0"
  shows "(\<exists>bus'. unsubscribe bus c = Inr bus' \<and>
            (\<forall>E ev calls b. publish p bus' E ev = Inr (calls, b) \<longrightarrow>
               (\<forall>x \<in> set calls. \<not> (this_ptr x = id_c c \<and> arg_type x = ti c)))) \<and>
         (\<exists>b1. subscribe p place bus0 Event h a = Inr (cookie a Event, b1) \<and>
               unsubscribe b1 (cookie a Event) = Inr bus0 \<and>
               (\<forall>E ev calls b. publish p bus0 E ev = Inr (calls, b) \<longrightarrow>
                  call a h Event \<notin> set calls))"
proof -
  from assms(1) have ok: "bus_ok p bus" by (rule reachable_bus_ok)
  from unsubscribe_reachable [OF ok, of c] obtain b' where
    u: "unsubscribe bus c = Inr b'" and ok': "bus_ok p b'"
    and s': "subscriptions b' = unsubscribe_functor c (subscriptions bus)" by blast
  have "distinct (map m_self (subscriptions bus (ti c)))"
    using copies_ok(3) [OF ok] by (simp add: table_ok_def)
  then have gone: "\<forall>s \<in> set (subscriptions b' (ti c)). m_self s \<noteq> id_c c"
    using erase_first_gone [of "subscriptions bus (ti c)" "id_c c"]
    by (simp add: s' unsubscribe_functor_eq subscriber_id_def)
  have silent: "\<not> (this_ptr x = id_c c \<and> arg_type x = ti c)"
    if "publish p b' E ev = Inr (calls, b)" and "x \<in> set calls" for E ev calls b x
    using publish_calls [OF copies_ok(3) [OF ok'] that] gone by auto
  from assms(2) have ok0: "bus_ok p bus0" by (rule reachable_bus_ok)
  from assms(5) have absent: "\<forall>k. \<forall>s \<in> set (subscriptions bus0 k). m_self s \<noteq> a"
    unfolding live_ok [OF ok0] by blast
  then have fresh: "\<forall>s \<in> set (subscriptions bus0 Event). subscriber_id s \<noteq> a"
    by (simp add: subscriber_id_def)
  from subscribe_reachable [OF ok0 assms(3), of place h a] obtain b1 where
    sub: "subscribe p place bus0 Event h a = Inr (cookie a Event, b1)"
    and s1: "subscriptions b1 =
       emplace place (subscriptions bus0) Event (type_erased_subscriber p h a Event)"
    and un: "unsubscribe b1 (cookie a Event) =
             Inr (bus0\<lparr> m_subscribers :=
                   (m_subscribers bus0)
                     \<lparr> m_left := unsubscribe_functor (cookie a Event) (subscriptions b1),
                       m_right := unsubscribe_functor (cookie a Event) (subscriptions b1) \<rparr> \<rparr>)"
    by blast
  have "unsubscribe_functor (cookie a Event) (subscriptions b1) = subscriptions bus0"
    unfolding s1 using fresh by (rule emplace_then_unsubscribe)
  with un have undone: "unsubscribe b1 (cookie a Event) = Inr bus0"
    using copies_ok(1,2) [OF ok0, symmetric] by simp
  have never: "call a h Event \<notin> set calls"
    if "publish p bus0 E ev = Inr (calls, b)" for E ev calls b
  proof
    assume "call a h Event \<in> set calls"
    from publish_calls [OF copies_ok(3) [OF ok0] that this]
    obtain s where s: "s \<in> set (subscriptions bus0 (arg_type (call a h Event)))"
      and "this_ptr (call a h Event) = m_self s" by blast
    then have "m_self s = a" by simp
    moreover from absent s have "m_self s \<noteq> a" by blast
    ultimately show False by contradiction
  qed
  from sub undone never u silent show ?thesis by blast
qed

subsection \<open>Reaching a state by a subscription\<close>

lemma set_emplace:
  "set (emplace place subs E v k) = (if k = E then insert v (set (subs E)) else set (subs k))"
  by (simp add: emplace_def set_insert_at del: set_append)

lemma reachable_subscribed:
  assumes r: "reachable p place bus" and cls: "is_class E" and a: "a \<noteq> 0" "a \<notin> live bus"
  shows "\<exists>bus'. subscribe p place bus E h a = Inr (cookie a E, bus') \<and>
           reachable p place bus' \<and>
           subscriptions bus' = emplace place (subscriptions bus) E (type_erased_subscriber p h a E) \<and>
           live bus' = insert a (live bus)"
proof -
  from r have ok: "bus_ok p bus" by (rule reachable_bus_ok)
  from subscribe_reachable [OF ok cls, of place h a] obtain b where
    sub: "subscribe p place bus E h a = Inr (cookie a E, b)"
    and s: "subscriptions b = emplace place (subscriptions bus) E (type_erased_subscriber p h a E)"
    by blast
  from r a sub have r': "reachable p place b" by (rule reachable.subscribed)
  then have ok': "bus_ok p b" by (rule reachable_bus_ok)
  let ?v = "type_erased_subscriber p h a E"
  have m: "m_self ?v = a"
    by (simp add: type_erased_subscriber_def)
  have "x \<in> live b \<longleftrightarrow> x \<in> insert a (live bus)" for x
  proof
    assume "x \<in> live b"
    then obtain t k where x: "x = m_self t"
      and t: "t \<in> set (emplace place (subscriptions bus) E ?v k)"
      unfolding live_ok [OF ok'] s by blast
    from t have "t = ?v \<or> t \<in> set (subscriptions bus k)"
      by (simp add: set_emplace split: if_splits)
    with x m show "x \<in> insert a (live bus)"
      unfolding live_ok [OF ok] by blast
  next
    assume "x \<in> insert a (live bus)"
    then have "x = a \<or> (\<exists>t k. x = m_self t \<and> t \<in> set (subscriptions bus k))"
      unfolding live_ok [OF ok] by blast
    then show "x \<in> live b"
    proof
      assume xa: "x = a"
      show ?thesis unfolding live_ok [OF ok'] s
        by (rule CollectI, rule exI [of _ ?v], rule exI [of _ E]) (simp add: xa m set_emplace)
    next
      assume "\<exists>t k. x = m_self t \<and> t \<in> set (subscriptions bus k)"
      then obtain t k where "x = m_self t" "t \<in> set (subscriptions bus k)" by blast
      moreover from this have "t \<in> set (emplace place (subscriptions bus) E ?v k)"
        by (auto simp: set_emplace)
      ultimately show ?thesis unfolding live_ok [OF ok'] s by blast
    qed
  qed
  then have "live b = insert a (live bus)" by blast
  with sub r' s show ?thesis by blast
qed

lemma subscriptions_constructed:
  "subscriptions basic_eventbus = (\<lambda>k. [])" "live basic_eventbus = {}"
  by (simp_all add: subscriptions_def live_def basic_eventbus_def basic_leftright_def)

lemma two_subscribers:
  "\<exists>bus. reachable [] length bus \<and>
     subscriptions bus =
       (\<lambda>k. [])(struct ''Foo'' := [type_erased_subscriber [] ''h1'' 1 (struct ''Foo''),
                                 type_erased_subscriber [] ''h2'' 2 (struct ''Foo'')]) \<and>
     live bus = {1, 2}"
proof -
  have "reachable [] length (basic_eventbus :: string basic_eventbus)"
    by (rule reachable.constructed)
  from reachable_subscribed [OF this, of "struct ''Foo''" 1 "''h1''"]
  obtain b1 :: "string basic_eventbus" where r1: "reachable [] length b1"
    and s1: "subscriptions b1 =
       (\<lambda>k. [])(struct ''Foo'' := [type_erased_subscriber [] ''h1'' 1 (struct ''Foo'')])"
    and l1: "live b1 = {1}"
    by (auto simp: subscriptions_constructed emplace_def)
  from reachable_subscribed [OF r1, of "struct ''Foo''" 2 "''h2''"]
  obtain b2 :: "string basic_eventbus" where r2: "reachable [] length b2"
    and s2: "subscriptions b2 =
       (\<lambda>k. [])(struct ''Foo'' := [type_erased_subscriber [] ''h1'' 1 (struct ''Foo''),
                                 type_erased_subscriber [] ''h2'' 2 (struct ''Foo'')])"
    and l2: "live b2 = {1, 2}"
    by (auto simp: s1 l1 emplace_def)
  then show ?thesis by blast
qed

theorem unsubscribe_idempotent_witness:
  "\<exists>(bus :: string basic_eventbus) b1 b2.
     reachable [] length bus \<and>
     subscriptions bus (struct ''Foo'') =
       [type_erased_subscriber [] ''h1'' 1 (struct ''Foo''),
        type_erased_subscriber [] ''h2'' 2 (struct ''Foo'')] \<and>
     unsubscribe bus (cookie 1 (struct ''Foo'')) = Inr b1 \<and>
     unsubscribe b1 (cookie 1 (struct ''Foo'')) = Inr b2 \<and>
     subscriptions b2 = subscriptions b1"
proof -
  from two_subscribers obtain bus :: "string basic_eventbus" where
    r: "reachable [] length bus"
    and s: "subscriptions bus (struct ''Foo'') =
       [type_erased_subscriber [] ''h1'' 1 (struct ''Foo''),
        type_erased_subscriber [] ''h2'' 2 (struct ''Foo'')]"
    by auto
  from unsubscribe_idempotent [OF r, of "cookie 1 (struct ''Foo'')"] r s
  show ?thesis by blast
qed

theorem unsubscribe_default_cookie_witness:
  "\<exists>(bus :: string basic_eventbus) bus'.
     reachable [] length bus \<and>
     subscriptions bus (struct ''Foo'') =
       [type_erased_subscriber [] ''h1'' 1 (struct ''Foo''),
        type_erased_subscriber [] ''h2'' 2 (struct ''Foo'')] \<and>
     unsubscribe bus cookie_default = Inr bus' \<and>
     subscriptions bus' = subscriptions bus"
proof -
  from two_subscribers obtain bus :: "string basic_eventbus" where
    r: "reachable [] length bus"
    and s: "subscriptions bus (struct ''Foo'') =
       [type_erased_subscriber [] ''h1'' 1 (struct ''Foo''),
        type_erased_subscriber [] ''h2'' 2 (struct ''Foo'')]"
    by auto
  from unsubscribe_default_cookie [OF r] r s
  show ?thesis by blast
qed

theorem unsubscribe_ends_delivery_witness:
  "\<exists>(bus :: string basic_eventbus) bus' b1.
     reachable [] length bus \<and> is_class (struct ''Foo'') \<and> (3 :: id_t) \<noteq> 0 \<and> 3 \<notin> live bus \<and>
     unsubscribe bus (cookie 1 (struct ''Foo'')) = Inr bus' \<and>
     (\<forall>E ev calls b. publish [] bus' E ev = Inr (calls, b) \<longrightarrow>
        (\<forall>x \<in> set calls. \<not> (this_ptr x = 1 \<and> arg_type x = struct ''Foo''))) \<and>
     subscribe [] length bus (struct ''Foo'') ''h3'' 3 = Inr (cookie 3 (struct ''Foo''), b1) \<and>
     unsubscribe b1 (cookie 3 (struct ''Foo'')) = Inr bus \<and>
     (\<forall>E ev calls b. publish [] bus E ev = Inr (calls, b) \<longrightarrow>
        call 3 ''h3'' (struct ''Foo'') \<notin> set calls)"
proof -
  from two_subscribers obtain bus :: "string basic_eventbus" where
    r: "reachable [] length bus" and l: "live bus = {1, 2}"
    by auto
  have h: "is_class (struct ''Foo'')" "(3 :: id_t) \<noteq> 0" "3 \<notin> live bus"
    by (simp_all add: l)
  from unsubscribe_ends_delivery [OF r r h, of "cookie 1 (struct ''Foo'')" "''h3''"] r h
  show ?thesis by (simp add: cookie_def) blast
qed

theorem unsubscribe_erases_first_match_witness:
  "quiescent (m_subscribers
     \<lparr> m_subscribers = basic_leftright
          ((\<lambda>k. [])(struct ''Foo'' := [type_erased_subscriber [] ''h1'' 1 (struct ''Foo''),
                                    type_erased_subscriber [] ''h2'' 2 (struct ''Foo''),
                                    type_erased_subscriber [] ''h3'' 3 (struct ''Foo'')])) \<rparr>) \<and>
   (\<exists>bus'. unsubscribe
       \<lparr> m_subscribers = basic_leftright
          ((\<lambda>k. [])(struct ''Foo'' := [type_erased_subscriber [] ''h1'' 1 (struct ''Foo''),
                                    type_erased_subscriber [] ''h2'' 2 (struct ''Foo''),
                                    type_erased_subscriber [] ''h3'' 3 (struct ''Foo'')])) \<rparr>
       (cookie 2 (struct ''Foo'')) = Inr bus' \<and>
     m_left (m_subscribers bus') (struct ''Foo'') =
       [type_erased_subscriber [] ''h1'' 1 (struct ''Foo''),
        type_erased_subscriber [] ''h3'' 3 (struct ''Foo'')] \<and>
     m_right (m_subscribers bus') (struct ''Foo'') =
       [type_erased_subscriber [] ''h1'' 1 (struct ''Foo''),
        type_erased_subscriber [] ''h3'' 3 (struct ''Foo'')])"
proof -
  let ?T = "(\<lambda>k. [])(struct ''Foo'' := [type_erased_subscriber [] ''h1'' 1 (struct ''Foo''),
                                    type_erased_subscriber [] ''h2'' 2 (struct ''Foo''),
                                    type_erased_subscriber [] ''h3'' 3 (struct ''Foo'')])"
  let ?B = "\<lparr> m_subscribers = basic_leftright ?T \<rparr>"
  have q: "quiescent (m_subscribers ?B)" by (simp add: quiescent_basic_leftright)
  have e: "unsubscribe_functor (cookie 2 (struct ''Foo'')) ?T (struct ''Foo'') =
       [type_erased_subscriber [] ''h1'' 1 (struct ''Foo''),
        type_erased_subscriber [] ''h3'' 3 (struct ''Foo'')]"
    by (simp add: unsubscribe_functor_eq cookie_def subscriber_id_def type_erased_subscriber_def)
  have lr: "m_left (m_subscribers ?B) = ?T" "m_right (m_subscribers ?B) = ?T"
    by (simp_all add: basic_leftright_def)
  from unsubscribe_erases_first_match [OF q, of "cookie 2 (struct ''Foo'')" ?T]
  obtain bus' where "unsubscribe ?B (cookie 2 (struct ''Foo'')) = Inr bus'"
    "m_left (m_subscribers bus') = unsubscribe_functor (cookie 2 (struct ''Foo'')) ?T"
    "m_right (m_subscribers bus') = unsubscribe_functor (cookie 2 (struct ''Foo'')) ?T"
    unfolding lr by blast
  with q e show ?thesis by auto
qed


lemma reachable_unsubscribed:
  assumes "reachable p place bus"
  shows "\<exists>bus'. unsubscribe bus c = Inr bus' \<and> reachable p place bus' \<and>
           subscriptions bus' = unsubscribe_functor c (subscriptions bus)"
proof -
  from unsubscribe_reachable [OF reachable_bus_ok [OF assms], of c] obtain b where
    u: "unsubscribe bus c = Inr b"
    and s: "subscriptions b = unsubscribe_functor c (subscriptions bus)" by blast
  from assms u have "reachable p place b" by (rule reachable.unsubscribed)
  with u s show ?thesis by blast
qed

section \<open>Properties of publish\<close>

lemma supers_self: "is_class T \<Longrightarrow> T \<in> set (supers p T)"
  by (induction p T rule: supers.induct) auto

lemma supers_adapted_event:
  "adapted_event X \<in> set (supers p D) \<Longrightarrow> event \<in> set (supers p D)"
  by (induction p D rule: supers.induct) (auto split: if_splits option.splits)


lemma adapted_event_neq: "adapted_event E \<noteq> E"
  by (induction E) auto

lemma dispatch_chain_plain:
  assumes "is_class Event" and "\<not> is_base_of p event Event"
  shows "dispatch_chain p Event = Some (typelist (adapted_event Event) (typelist Event null_t))"
  using assms by (simp add: dispatch_chain_def dispatch_typelist_def adapted_event_neq)

lemma deliver_eq:
  "deliver p ev subs k = map handler_call (filter (\<lambda>s. accepts p s ev) (subs k))"
proof -
  have "concat (map (\<lambda>s. subscriber_deliver p s ev) xs)
        = map handler_call (filter (\<lambda>s. accepts p s ev) xs)" for xs
    by (induction xs) (simp_all add: subscriber_deliver_eq)
  then show ?thesis by (simp add: deliver_def equal_range_def)
qed

lemma this_ptr_handler_call: "this_ptr (handler_call s) = m_self s"
  by (cases "pointee s") (simp_all add: handler_call_def)

lemma arg_type_handler_call:
  assumes "table_ok p subs" and "s \<in> set (subs k)"
  shows "arg_type (handler_call s) = k"
proof -
  from assms obtain h where "s = type_erased_subscriber p h (m_self s) k"
    unfolding table_ok_def by blast
  with handler_call_made [of p h "m_self s" k] show ?thesis by simp
qed

lemma accepts_made:
  "accepts p (type_erased_subscriber p h a k) e = (is_base_of p event k \<or> dynamic_cast p k e)"
  by (simp add: accepts_def type_erased_subscriber_def)

lemma accepts_ok:
  assumes "table_ok p subs" and "s \<in> set (subs k)"
  shows "accepts p s e = (is_base_of p event k \<or> k \<in> set (supers p (most_derived e)))"
proof -
  from assms obtain h where "s = type_erased_subscriber p h (m_self s) k"
    unfolding table_ok_def by blast
  with accepts_made [of p h "m_self s" k e] show ?thesis by (simp add: dynamic_cast_def)
qed

lemma distinct_map_neq: "distinct (map f (x # xs)) \<Longrightarrow> y \<in> set xs \<Longrightarrow> f y \<noteq> f x"
  by (induction xs) auto

lemma count_range:
  assumes "distinct (map m_self xs)" and "s \<in> set xs"
  shows "count_list (map handler_call (filter P xs)) (handler_call s) = (if P s then 1 else 0)"
  using assms
proof (induction xs)
  case Nil
  then show ?case by simp
next
  case (Cons x xs)
  show ?case
  proof (cases "x = s")
    case True
    have "handler_call y \<noteq> handler_call x" if "y \<in> set xs" for y
    proof
      assume "handler_call y = handler_call x"
      then have "this_ptr (handler_call y) = this_ptr (handler_call x)" by simp
      then have "m_self y = m_self x" by (simp only: this_ptr_handler_call)
      with distinct_map_neq [OF Cons.prems(1) that] show False by simp
    qed
    then have ne: "\<forall>y \<in> set xs. handler_call y \<noteq> handler_call x" by blast
    have "handler_call x \<notin> set (map handler_call (filter P xs))"
    proof
      assume "handler_call x \<in> set (map handler_call (filter P xs))"
      then obtain y where "y \<in> set xs" "handler_call y = handler_call x" by auto
      with ne show False by blast
    qed
    then have "count_list (map handler_call (filter P xs)) (handler_call x) = 0"
      by (rule count_notin)
    with True show ?thesis by simp
  next
    case False
    with Cons.prems have s: "s \<in> set xs" by simp
    have "handler_call x \<noteq> handler_call s"
    proof
      assume "handler_call x = handler_call s"
      then have "this_ptr (handler_call x) = this_ptr (handler_call s)" by simp
      then have "m_self s = m_self x" by (simp only: this_ptr_handler_call)
      with distinct_map_neq [OF Cons.prems(1) s] show False by simp
    qed
    with Cons.IH s Cons.prems(1) show ?thesis by simp
  qed
qed

lemma count_deliver:
  assumes ok: "table_ok p subs" and s: "s \<in> set (subs k)"
  shows "count_list (deliver p ev subs k') (handler_call s)
         = (if k' = k \<and> accepts p s ev then 1 else 0)"
proof (cases "k' = k")
  case True
  from ok have "distinct (map m_self (subs k))" by (simp add: table_ok_def)
  from count_range [OF this s] True show ?thesis by (simp add: deliver_eq)
next
  case False
  have "handler_call s \<notin> set (deliver p ev subs k')"
  proof
    assume "handler_call s \<in> set (deliver p ev subs k')"
    from deliver_calls [OF ok this] have "arg_type (handler_call s) = k'" by simp
    with arg_type_handler_call [OF ok s] False show False by simp
  qed
  then have "count_list (deliver p ev subs k') (handler_call s) = 0"
    by (rule count_notin)
  with False show ?thesis by simp
qed

lemma count_chain:
  assumes ok: "table_ok p subs" and s: "s \<in> set (subs k)"
  shows "count_list (concat (map (deliver p ev subs) ks)) (handler_call s)
         = (if accepts p s ev then count_list ks k else 0)"
  by (induction ks) (simp_all add: count_deliver [OF ok s])

lemma calls_of_chain:
  assumes "x \<in> set (concat (map (deliver p ev subs) ks))"
  shows "\<exists>k \<in> set ks. \<exists>s \<in> set (subs k). x = handler_call s \<and> accepts p s ev"
  using assms by (auto simp: deliver_eq)


section \<open>Claims about publish\<close>

lemma publish_reachable:
  assumes r: "reachable p place bus" and ch: "dispatch_chain p Event = Some types"
  shows "publish p bus Event ev =
           Inr (concat (map (deliver p (delivered_object p Event ev) (subscriptions bus))
                            (elements types)), bus)"
    and "table_ok p (subscriptions bus)"
  using ch copies_ok(3) [OF reachable_bus_ok [OF r]] by (simp_all add: publish_eq)

text \<open>
  Claim C1, amended. In every reachable state, a publish of an event whose dispatch
  chain exists returns and leaves the bus as it was. A subscribed record is called as
  often as the key it is stored under occurs in the chain if its delivery accepts the
  published object, and not at all if it does not; a record for a type derived from
  \<open>detail::event\<close> accepts every object, a record for another type accepts the objects
  that have its type among their classes. Every call made is the call of a record
  subscribed under a key of the chain.
\<close>

theorem publish_invokes_accepting_subscribers:
  assumes "reachable p place bus" and "dispatch_chain p Event = Some types"
  shows "\<exists>calls. publish p bus Event ev = Inr (calls, bus) \<and>
           (\<forall>k. \<forall>s \<in> set (subscriptions bus k).
              accepts p s (delivered_object p Event ev)
                = (is_base_of p event k \<or>
                   k \<in> set (supers p (most_derived (delivered_object p Event ev)))) \<and>
              count_list calls (handler_call s)
                = (if accepts p s (delivered_object p Event ev)
                   then count_list (elements types) k else 0)) \<and>
           (\<forall>x \<in> set calls. \<exists>k \<in> set (elements types).
              \<exists>s \<in> set (subscriptions bus k). x = handler_call s)"
proof -
  let ?e = "delivered_object p Event ev"
  let ?calls = "concat (map (deliver p ?e (subscriptions bus)) (elements types))"
  note pub = publish_reachable [OF assms]
  have "accepts p s ?e = (is_base_of p event k \<or> k \<in> set (supers p (most_derived ?e)))"
    if "s \<in> set (subscriptions bus k)" for k s
    using pub(2) that by (rule accepts_ok)
  moreover have "count_list ?calls (handler_call s)
                 = (if accepts p s ?e then count_list (elements types) k else 0)"
    if "s \<in> set (subscriptions bus k)" for k s
    using pub(2) that by (rule count_chain)
  moreover have "\<exists>k \<in> set (elements types). \<exists>s \<in> set (subscriptions bus k). x = handler_call s"
    if "x \<in> set ?calls" for x
    using calls_of_chain [OF that] by blast
  ultimately show ?thesis using pub(1) [of ev] by blast
qed

lemma test_subscribers:
  "\<exists>bus. reachable test_events place bus \<and>
     subscriptions bus =
       (\<lambda>k. [])(base_event := [type_erased_subscriber test_events ''on_base'' 1 base_event],
                derived_event := [type_erased_subscriber test_events ''on_derived'' 2 derived_event])"
proof -
  have "reachable test_events place (basic_eventbus :: string basic_eventbus)"
    by (rule reachable.constructed)
  from reachable_subscribed [OF this, of base_event 1 "''on_base''"]
  obtain b1 :: "string basic_eventbus" where r1: "reachable test_events place b1"
    and s1: "subscriptions b1 =
       (\<lambda>k. [])(base_event := [type_erased_subscriber test_events ''on_base'' 1 base_event])"
    and l1: "live b1 = {1}"
    by (auto simp: subscriptions_constructed emplace_def)
  from reachable_subscribed [OF r1, of derived_event 2 "''on_derived''"]
  obtain b2 :: "string basic_eventbus" where r2: "reachable test_events place b2"
    and s2: "subscriptions b2 =
       (\<lambda>k. [])(base_event := [type_erased_subscriber test_events ''on_base'' 1 base_event],
                derived_event := [type_erased_subscriber test_events ''on_derived'' 2 derived_event])"
    by (auto simp: s1 l1 emplace_def)
  then show ?thesis by blast
qed

lemma test_chains:
  "dispatch_chain test_events base_event = Some (typelist base_event null_t)"
  "dispatch_chain test_events derived_event
     = Some (typelist derived_event (typelist base_event null_t))"
  "dispatch_chain test_events very_derived_event
     = Some (typelist very_derived_event (typelist derived_event (typelist base_event null_t)))"
  "dispatch_chain test_events non_polymorphic_event
     = Some (typelist (adapted_event non_polymorphic_event) (typelist non_polymorphic_event null_t))"
  by (simp_all add: test_events_def dispatch_chain_def dispatch_typelist_def is_base_of_def)

lemma test_events_derive:
  "is_base_of test_events event base_event" "is_base_of test_events event derived_event"
  "is_base_of test_events event very_derived_event"
  "\<not> is_base_of test_events event non_polymorphic_event"
  by (simp_all add: is_base_of_def test_events_def)

text \<open>
  Three handlers subscribed for \<open>base_event\<close> in the order 1, 2, 3 on a container that
  puts a new record in front of the records of equal key.
\<close>

lemma three_subscribers:
  "\<exists>bus. reachable test_events (\<lambda>range. 0) bus \<and>
     subscriptions bus =
       (\<lambda>k. [])(base_event := [type_erased_subscriber test_events ''third'' 3 base_event,
                               type_erased_subscriber test_events ''second'' 2 base_event,
                               type_erased_subscriber test_events ''first'' 1 base_event]) \<and>
     live bus = {1, 2, 3}"
proof -
  have "reachable test_events (\<lambda>range. 0) (basic_eventbus :: string basic_eventbus)"
    by (rule reachable.constructed)
  from reachable_subscribed [OF this, of base_event 1 "''first''"]
  obtain b1 :: "string basic_eventbus" where r1: "reachable test_events (\<lambda>range. 0) b1"
    and s1: "subscriptions b1 =
       (\<lambda>k. [])(base_event := [type_erased_subscriber test_events ''first'' 1 base_event])"
    and l1: "live b1 = {1}"
    by (auto simp: subscriptions_constructed emplace_def)
  from reachable_subscribed [OF r1, of base_event 2 "''second''"]
  obtain b2 :: "string basic_eventbus" where r2: "reachable test_events (\<lambda>range. 0) b2"
    and s2: "subscriptions b2 =
       (\<lambda>k. [])(base_event := [type_erased_subscriber test_events ''second'' 2 base_event,
                               type_erased_subscriber test_events ''first'' 1 base_event])"
    and l2: "live b2 = {1, 2}"
    by (auto simp: s1 l1 emplace_def)
  from reachable_subscribed [OF r2, of base_event 3 "''third''"]
  obtain b3 :: "string basic_eventbus" where r3: "reachable test_events (\<lambda>range. 0) b3"
    and s3: "subscriptions b3 =
       (\<lambda>k. [])(base_event := [type_erased_subscriber test_events ''third'' 3 base_event,
                               type_erased_subscriber test_events ''second'' 2 base_event,
                               type_erased_subscriber test_events ''first'' 1 base_event])"
    and l3: "live b3 = {1, 2, 3}"
    by (auto simp: s2 l2 emplace_def)
  then show ?thesis by blast
qed


theorem publish_invokes_accepting_subscribers_witness:
  "\<exists>(bus :: string basic_eventbus) calls.
     reachable test_events length bus \<and>
     dispatch_chain test_events derived_event
       = Some (typelist derived_event (typelist base_event null_t)) \<and>
     publish test_events bus derived_event (object derived_event) = Inr (calls, bus) \<and>
     count_list calls (call 1 ''on_base'' base_event) = 1 \<and>
     count_list calls (call 2 ''on_derived'' derived_event) = 1"
proof -
  from test_subscribers obtain bus :: "string basic_eventbus" where
    r: "reachable test_events length bus"
    and s: "subscriptions bus =
       (\<lambda>k. [])(base_event := [type_erased_subscriber test_events ''on_base'' 1 base_event],
                derived_event := [type_erased_subscriber test_events ''on_derived'' 2 derived_event])"
    by blast
  note ch = test_chains(2)
  from publish_invokes_accepting_subscribers [OF r ch, of "object derived_event"]
  obtain calls where pub: "publish test_events bus derived_event (object derived_event) = Inr (calls, bus)"
    and cnt: "\<forall>k. \<forall>s \<in> set (subscriptions bus k).
              accepts test_events s (delivered_object test_events derived_event (object derived_event))
                = (is_base_of test_events event k \<or>
                   k \<in> set (supers test_events (most_derived
                          (delivered_object test_events derived_event (object derived_event))))) \<and>
              count_list calls (handler_call s)
                = (if accepts test_events s (delivered_object test_events derived_event (object derived_event))
                   then count_list (elements (typelist derived_event (typelist base_event null_t))) k
                   else 0)"
    by blast
  have b: "is_base_of test_events event base_event" "is_base_of test_events event derived_event"
    by (simp_all add: is_base_of_def test_events_def)
  from cnt [rule_format, of "type_erased_subscriber test_events ''on_base'' 1 base_event" base_event]
  have c1: "count_list calls (call 1 ''on_base'' base_event) = 1"
    by (simp add: s b handler_call_made)
  from cnt [rule_format, of "type_erased_subscriber test_events ''on_derived'' 2 derived_event" derived_event]
  have c2: "count_list calls (call 2 ''on_derived'' derived_event) = 1"
    by (simp add: s b handler_call_made)
  from r ch pub c1 c2 show ?thesis by blast
qed

text \<open>
  Claim C1 as stated fails where a class uses \<open>polymorphic_event\<close> with a first argument
  that is not derived from \<open>detail::event\<close>: with \<open>struct Foo {}\<close> and
  \<open>struct X : mpm::polymorphic_event<Foo> {}\<close>, the chain of \<open>X\<close> is \<open>[X, Foo]\<close>, the handler
  subscribed for \<open>Foo\<close> is found under a key of the chain, its \<open>dynamic_cast\<close> of the
  published \<open>X\<close> fails, and a publish of an \<open>X\<close> makes no call.
\<close>

theorem publish_skips_subscriber_in_chain:
  "\<exists>bus :: string basic_eventbus.
     subscribe [(''X'', Some (polymorphic_event (struct ''Foo'') event), None)] length
       basic_eventbus (struct ''Foo'') ''h'' 1 = Inr (cookie 1 (struct ''Foo''), bus) \<and>
     subscriptions bus (struct ''Foo'')
       = [type_erased_subscriber [(''X'', Some (polymorphic_event (struct ''Foo'') event), None)]
            ''h'' 1 (struct ''Foo'')] \<and>
     dispatch_chain [(''X'', Some (polymorphic_event (struct ''Foo'') event), None)] (struct ''X'')
       = Some (typelist (struct ''X'') (typelist (struct ''Foo'') null_t)) \<and>
     publish [(''X'', Some (polymorphic_event (struct ''Foo'') event), None)] bus
       (struct ''X'') (object (struct ''X'')) = Inr ([], bus)"
proof -
  let ?p = "[(''X'', Some (polymorphic_event (struct ''Foo'') event), None)]"
  have "reachable ?p length (basic_eventbus :: string basic_eventbus)"
    by (rule reachable.constructed)
  from reachable_subscribed [OF this, of "struct ''Foo''" 1 "''h''"]
  obtain bus :: "string basic_eventbus" where
    sub: "subscribe ?p length basic_eventbus (struct ''Foo'') ''h'' 1
          = Inr (cookie 1 (struct ''Foo''), bus)"
    and s: "subscriptions bus = (\<lambda>k. [])(struct ''Foo'' := [type_erased_subscriber ?p ''h'' 1 (struct ''Foo'')])"
    by (auto simp: subscriptions_constructed emplace_def)
  have ch: "dispatch_chain ?p (struct ''X'')
       = Some (typelist (struct ''X'') (typelist (struct ''Foo'') null_t))"
    by (simp add: dispatch_chain_def dispatch_typelist_def is_base_of_def)
  have "publish ?p bus (struct ''X'') (object (struct ''X'')) = Inr ([], bus)"
    by (simp add: publish_eq ch s deliver_eq accepts_made is_base_of_def dynamic_cast_def
                  delivered_object_def)
  with sub s ch show ?thesis by simp
qed


text \<open>
  Claim C3, amended. In every reachable state, a publish makes its calls in the order
  of the dispatch chain, and for one element of the chain in the order in which
  \<open>equal_range\<close> iterates over the records of that key. A subscribe puts its record
  into the range of its key at the offset the container chooses, before the records
  that were at and behind that offset: behind all of them (and then the range is in
  the order of subscription) when the container appends, in front of all of them when
  the container prepends. An unsubscribe returns and leaves the ranges of the other
  keys as they are; under the key of its cookie it either finds no record of the
  cookie's identity and leaves the table as it is, or takes out the first such record
  and keeps the records before and behind it in their order.
\<close>

theorem publish_order:
  assumes "reachable p place bus" and "dispatch_chain p Event = Some types" and "is_class E"
  shows "publish p bus Event ev =
           Inr (concat (map (\<lambda>k. map handler_call
                                    (filter (\<lambda>s. accepts p s (delivered_object p Event ev))
                                            (equal_range (subscriptions bus) k)))
                            (elements types)), bus) \<and>
         (\<exists>bus'. subscribe p place bus E h a = Inr (cookie a E, bus') \<and>
            subscriptions bus' =
              (subscriptions bus)
                (E := take (place (subscriptions bus E)) (subscriptions bus E)
                      @ type_erased_subscriber p h a E
                      # drop (place (subscriptions bus E)) (subscriptions bus E)) \<and>
            (place (subscriptions bus E) = length (subscriptions bus E) \<longrightarrow>
               subscriptions bus' E = subscriptions bus E @ [type_erased_subscriber p h a E]) \<and>
            (place (subscriptions bus E) = 0 \<longrightarrow>
               subscriptions bus' E = type_erased_subscriber p h a E # subscriptions bus E)) \<and>
         (\<exists>bus'. unsubscribe bus c = Inr bus' \<and>
            (\<forall>k. k \<noteq> ti c \<longrightarrow> subscriptions bus' k = subscriptions bus k) \<and>
            ((\<forall>s \<in> set (subscriptions bus (ti c)). subscriber_id s \<noteq> id_c c) \<and>
               subscriptions bus' = subscriptions bus
             \<or> (\<exists>pre s post. subscriptions bus (ti c) = pre @ s # post \<and>
                   subscriber_id s = id_c c \<and>
                   (\<forall>x \<in> set pre. subscriber_id x \<noteq> id_c c) \<and>
                   subscriptions bus' (ti c) = pre @ post)))"
proof -
  have pub: "publish p bus Event ev =
           Inr (concat (map (\<lambda>k. map handler_call
                                    (filter (\<lambda>s. accepts p s (delivered_object p Event ev))
                                            (equal_range (subscriptions bus) k)))
                            (elements types)), bus)"
  proof -
    have "deliver p (delivered_object p Event ev) (subscriptions bus)
          = (\<lambda>k. map handler_call
                    (filter (\<lambda>s. accepts p s (delivered_object p Event ev))
                            (equal_range (subscriptions bus) k)))"
      by (rule ext) (simp add: deliver_eq equal_range_def)
    then show ?thesis by (simp add: publish_reachable(1) [OF assms(1,2)])
  qed
  from subscribe_reachable [OF reachable_bus_ok [OF assms(1)] assms(3), of place h a]
  obtain b1 where "subscribe p place bus E h a = Inr (cookie a E, b1)"
    and "subscriptions b1 = emplace place (subscriptions bus) E (type_erased_subscriber p h a E)"
    by blast
  then have sub: "\<exists>bus'. subscribe p place bus E h a = Inr (cookie a E, bus') \<and>
            subscriptions bus' =
              (subscriptions bus)
                (E := take (place (subscriptions bus E)) (subscriptions bus E)
                      @ type_erased_subscriber p h a E
                      # drop (place (subscriptions bus E)) (subscriptions bus E)) \<and>
            (place (subscriptions bus E) = length (subscriptions bus E) \<longrightarrow>
               subscriptions bus' E = subscriptions bus E @ [type_erased_subscriber p h a E]) \<and>
            (place (subscriptions bus E) = 0 \<longrightarrow>
               subscriptions bus' E = type_erased_subscriber p h a E # subscriptions bus E)"
    by (simp add: emplace_def)
  from unsubscribe_reachable [OF reachable_bus_ok [OF assms(1)], of c]
  obtain b2 where u: "unsubscribe bus c = Inr b2"
    and s2: "subscriptions b2 = unsubscribe_functor c (subscriptions bus)" by blast
  have others: "\<forall>k. k \<noteq> ti c \<longrightarrow> subscriptions b2 k = subscriptions bus k"
    by (simp add: s2 unsubscribe_functor_eq)
  have range: "(\<forall>s \<in> set (subscriptions bus (ti c)). subscriber_id s \<noteq> id_c c) \<and>
               subscriptions b2 = subscriptions bus
             \<or> (\<exists>pre s post. subscriptions bus (ti c) = pre @ s # post \<and>
                   subscriber_id s = id_c c \<and>
                   (\<forall>x \<in> set pre. subscriber_id x \<noteq> id_c c) \<and>
                   subscriptions b2 (ti c) = pre @ post)"
    using erase_first_split [of "subscriptions bus (ti c)" "id_c c"]
    by (auto simp: s2 unsubscribe_functor_eq)
  from u others range
  have un: "\<exists>bus'. unsubscribe bus c = Inr bus' \<and>
            (\<forall>k. k \<noteq> ti c \<longrightarrow> subscriptions bus' k = subscriptions bus k) \<and>
            ((\<forall>s \<in> set (subscriptions bus (ti c)). subscriber_id s \<noteq> id_c c) \<and>
               subscriptions bus' = subscriptions bus
             \<or> (\<exists>pre s post. subscriptions bus (ti c) = pre @ s # post \<and>
                   subscriber_id s = id_c c \<and>
                   (\<forall>x \<in> set pre. subscriber_id x \<noteq> id_c c) \<and>
                   subscriptions bus' (ti c) = pre @ post))"
    by (intro exI [of _ b2] conjI)
  from pub sub un show ?thesis by (intro conjI)
qed

theorem publish_order_witness:
  "\<exists>(bus :: string basic_eventbus) bus' bus''.
     reachable test_events (\<lambda>range. 0) bus \<and>
     dispatch_chain test_events base_event = Some (typelist base_event null_t) \<and>
     is_class base_event \<and>
     subscriptions bus base_event
       = [type_erased_subscriber test_events ''third'' 3 base_event,
          type_erased_subscriber test_events ''second'' 2 base_event,
          type_erased_subscriber test_events ''first'' 1 base_event] \<and>
     publish test_events bus base_event (object base_event)
       = Inr ([call 3 ''third'' base_event, call 2 ''second'' base_event,
               call 1 ''first'' base_event], bus) \<and>
     subscribe test_events (\<lambda>range. 0) bus base_event ''late'' 4 = Inr (cookie 4 base_event, bus') \<and>
     subscriptions bus' base_event
       = [type_erased_subscriber test_events ''late'' 4 base_event,
          type_erased_subscriber test_events ''third'' 3 base_event,
          type_erased_subscriber test_events ''second'' 2 base_event,
          type_erased_subscriber test_events ''first'' 1 base_event] \<and>
     unsubscribe bus (cookie 2 base_event) = Inr bus'' \<and>
     subscriptions bus'' base_event
       = [type_erased_subscriber test_events ''third'' 3 base_event,
          type_erased_subscriber test_events ''first'' 1 base_event]"
proof -
  let ?s1 = "type_erased_subscriber test_events ''first'' 1 base_event"
  let ?s2 = "type_erased_subscriber test_events ''second'' 2 base_event"
  let ?s3 = "type_erased_subscriber test_events ''third'' 3 base_event"
  let ?c = "cookie 2 base_event"
  from three_subscribers obtain bus :: "string basic_eventbus" where
    r: "reachable test_events (\<lambda>range. 0) bus"
    and s: "subscriptions bus = (\<lambda>k. [])(base_event := [?s3, ?s2, ?s1])"
    by blast
  have c: "is_class base_event" by simp
  note inst = publish_order [OF r test_chains(1) c, of "object base_event" "''late''" 4 ?c]
  have pub: "publish test_events bus base_event (object base_event)
       = Inr ([call 3 ''third'' base_event, call 2 ''second'' base_event,
               call 1 ''first'' base_event], bus)"
    using inst [THEN conjunct1]
    by (simp add: s equal_range_def accepts_made test_events_derive handler_call_made)
  from inst [THEN conjunct2, THEN conjunct1]
  obtain b1 where sub: "subscribe test_events (\<lambda>range. 0) bus base_event ''late'' 4
                        = Inr (cookie 4 base_event, b1)"
    and s1: "subscriptions b1 base_event
       = [type_erased_subscriber test_events ''late'' 4 base_event, ?s3, ?s2, ?s1]"
    by (auto simp: s)
  from inst [THEN conjunct2, THEN conjunct2]
  obtain b2 where un: "unsubscribe bus ?c = Inr b2" by blast
  from reachable_unsubscribed [OF r, of ?c] un
  have "subscriptions b2 = unsubscribe_functor ?c (subscriptions bus)" by auto
  then have s2: "subscriptions b2 base_event = [?s3, ?s1]"
    by (simp add: s unsubscribe_functor_eq cookie_def subscriber_id_def type_erased_subscriber_def)
  from r test_chains(1) c s pub sub s1 un s2 show ?thesis by auto
qed

text \<open>
  Claim C3 as stated fails for the second part: where the container puts a new record
  in front of the records of equal key, as the hash table of libstdc++ does, two
  handlers subscribed for one type are called in the reverse of the order in which
  they were subscribed.
\<close>

theorem publish_order_reversed:
  "\<exists>(b1 :: string basic_eventbus) b2.
     subscribe test_events (\<lambda>range. 0) basic_eventbus base_event ''first'' 1
       = Inr (cookie 1 base_event, b1) \<and>
     subscribe test_events (\<lambda>range. 0) b1 base_event ''second'' 2
       = Inr (cookie 2 base_event, b2) \<and>
     publish test_events b2 base_event (object base_event)
       = Inr ([call 2 ''second'' base_event, call 1 ''first'' base_event], b2)"
proof -
  have "reachable test_events (\<lambda>range. 0) (basic_eventbus :: string basic_eventbus)"
    by (rule reachable.constructed)
  from reachable_subscribed [OF this, of base_event 1 "''first''"]
  obtain b1 :: "string basic_eventbus" where
    sub1: "subscribe test_events (\<lambda>range. 0) basic_eventbus base_event ''first'' 1
           = Inr (cookie 1 base_event, b1)"
    and r1: "reachable test_events (\<lambda>range. 0) b1"
    and s1: "subscriptions b1 =
       (\<lambda>k. [])(base_event := [type_erased_subscriber test_events ''first'' 1 base_event])"
    and l1: "live b1 = {1}"
    by (auto simp: subscriptions_constructed emplace_def)
  from reachable_subscribed [OF r1, of base_event 2 "''second''"]
  obtain b2 :: "string basic_eventbus" where
    sub2: "subscribe test_events (\<lambda>range. 0) b1 base_event ''second'' 2
           = Inr (cookie 2 base_event, b2)"
    and s2: "subscriptions b2 =
       (\<lambda>k. [])(base_event := [type_erased_subscriber test_events ''second'' 2 base_event,
                               type_erased_subscriber test_events ''first'' 1 base_event])"
    by (auto simp: s1 l1 emplace_def)
  have b: "is_base_of test_events event base_event"
    by (simp add: is_base_of_def test_events_def)
  have "publish test_events b2 base_event (object base_event)
       = Inr ([call 2 ''second'' base_event, call 1 ''first'' base_event], b2)"
    by (simp add: publish_eq test_chains s2 deliver_eq accepts_made b handler_call_made)
  with sub1 sub2 show ?thesis by blast
qed


text \<open>
  Claim C4, amended. An event of a class type \<open>E\<close> that is not derived from
  \<open>detail::event\<close> is published as a \<open>detail::adapted_event<E>\<close>, with the chain
  \<open>[adapted_event<E>, E]\<close>. In every reachable state the publish returns and leaves the
  bus as it was, every call is made for one of these two types, no handler subscribed
  for a strict base class of \<open>E\<close> is called, and every handler subscribed for \<open>E\<close> itself
  is called exactly once.
\<close>

theorem publish_plain_event:
  assumes "reachable p place bus" and "is_class Event" and "\<not> is_base_of p event Event"
  shows "dispatch_chain p Event = Some (typelist (adapted_event Event) (typelist Event null_t)) \<and>
         (\<exists>calls. publish p bus Event ev = Inr (calls, bus) \<and>
            (\<forall>x \<in> set calls. arg_type x = adapted_event Event \<or> arg_type x = Event) \<and>
            (\<forall>Base \<in> set (supers p Event). Base \<noteq> Event \<longrightarrow>
               (\<forall>s \<in> set (subscriptions bus Base). handler_call s \<notin> set calls)) \<and>
            (\<forall>s \<in> set (subscriptions bus Event). count_list calls (handler_call s) = 1))"
proof -
  let ?types = "typelist (adapted_event Event) (typelist Event null_t)"
  let ?e = "delivered_object p Event ev"
  let ?calls = "concat (map (deliver p ?e (subscriptions bus)) (elements ?types))"
  have ch: "dispatch_chain p Event = Some ?types"
    using assms(2,3) by (rule dispatch_chain_plain)
  note pub = publish_reachable [OF assms(1) ch]
  have e: "?e = object (adapted_event Event)"
    using assms(3) by (simp add: delivered_object_def)
  have types: "arg_type x = adapted_event Event \<or> arg_type x = Event" if "x \<in> set ?calls" for x
  proof -
    from that obtain k where "k \<in> set (elements ?types)"
      and "x \<in> set (deliver p ?e (subscriptions bus) k)" by auto
    with deliver_calls [OF pub(2), of x ?e k] show ?thesis by auto
  qed
  have bases: "handler_call s \<notin> set ?calls"
    if "Base \<in> set (supers p Event)" "Base \<noteq> Event" "s \<in> set (subscriptions bus Base)"
    for Base s
  proof
    assume "handler_call s \<in> set ?calls"
    from types [OF this] arg_type_handler_call [OF pub(2) that(3)] that(2)
    have "Base = adapted_event Event" by simp
    with that(1) have "event \<in> set (supers p Event)" by (simp add: supers_adapted_event)
    with assms(3) show False by (simp add: is_base_of_def)
  qed
  have once: "count_list ?calls (handler_call s) = 1" if "s \<in> set (subscriptions bus Event)" for s
  proof -
    have "accepts p s ?e"
      using accepts_ok [OF pub(2) that, of ?e] supers_self [OF assms(2), of p]
      by (simp add: e)
    with count_chain [OF pub(2) that, of ?e "elements ?types"] show ?thesis
      by (simp add: adapted_event_neq)
  qed
  from ch pub(1) [of ev] types bases once show ?thesis by blast
qed

lemma plain_subscribers:
  "\<exists>bus. reachable [(''PlainChild'', Some (struct ''PlainParent''), None)] length bus \<and>
     subscriptions bus =
       (\<lambda>k. [])(struct ''PlainParent'' :=
                  [type_erased_subscriber [(''PlainChild'', Some (struct ''PlainParent''), None)]
                     ''on_parent'' 1 (struct ''PlainParent'')],
                struct ''PlainChild'' :=
                  [type_erased_subscriber [(''PlainChild'', Some (struct ''PlainParent''), None)]
                     ''on_child'' 2 (struct ''PlainChild'')])"
proof -
  let ?p = "[(''PlainChild'', Some (struct ''PlainParent''), None)]"
  have "reachable ?p length (basic_eventbus :: string basic_eventbus)"
    by (rule reachable.constructed)
  from reachable_subscribed [OF this, of "struct ''PlainParent''" 1 "''on_parent''"]
  obtain b1 :: "string basic_eventbus" where r1: "reachable ?p length b1"
    and s1: "subscriptions b1 = (\<lambda>k. [])(struct ''PlainParent'' :=
               [type_erased_subscriber ?p ''on_parent'' 1 (struct ''PlainParent'')])"
    and l1: "live b1 = {1}"
    by (auto simp: subscriptions_constructed emplace_def)
  from reachable_subscribed [OF r1, of "struct ''PlainChild''" 2 "''on_child''"]
  obtain b2 :: "string basic_eventbus" where r2: "reachable ?p length b2"
    and s2: "subscriptions b2 =
       (\<lambda>k. [])(struct ''PlainParent'' :=
                  [type_erased_subscriber ?p ''on_parent'' 1 (struct ''PlainParent'')],
                struct ''PlainChild'' :=
                  [type_erased_subscriber ?p ''on_child'' 2 (struct ''PlainChild'')])"
    by (auto simp: s1 l1 emplace_def)
  then show ?thesis by blast
qed

theorem publish_plain_event_witness:
  "\<exists>(bus :: string basic_eventbus) calls.
     reachable [(''PlainChild'', Some (struct ''PlainParent''), None)] length bus \<and>
     is_class (struct ''PlainChild'') \<and>
     \<not> is_base_of [(''PlainChild'', Some (struct ''PlainParent''), None)] event (struct ''PlainChild'') \<and>
     struct ''PlainParent'' \<in> set (supers [(''PlainChild'', Some (struct ''PlainParent''), None)]
                                       (struct ''PlainChild'')) \<and>
     publish [(''PlainChild'', Some (struct ''PlainParent''), None)] bus (struct ''PlainChild'')
       (object (struct ''PlainChild'')) = Inr (calls, bus) \<and>
     call 1 ''on_parent'' (struct ''PlainParent'') \<notin> set calls \<and>
     count_list calls (call 2 ''on_child'' (struct ''PlainChild'')) = 1"
proof -
  let ?p = "[(''PlainChild'', Some (struct ''PlainParent''), None)]"
  from plain_subscribers obtain bus :: "string basic_eventbus" where
    r: "reachable ?p length bus"
    and s: "subscriptions bus =
       (\<lambda>k. [])(struct ''PlainParent'' :=
                  [type_erased_subscriber ?p ''on_parent'' 1 (struct ''PlainParent'')],
                struct ''PlainChild'' :=
                  [type_erased_subscriber ?p ''on_child'' 2 (struct ''PlainChild'')])"
    by blast
  have c: "is_class (struct ''PlainChild'')" by simp
  have n: "\<not> is_base_of ?p event (struct ''PlainChild'')" by (simp add: is_base_of_def)
  have b: "struct ''PlainParent'' \<in> set (supers ?p (struct ''PlainChild''))" by simp
  from publish_plain_event [OF r c n, of "object (struct ''PlainChild'')"]
  obtain calls where
    pub: "publish ?p bus (struct ''PlainChild'') (object (struct ''PlainChild'')) = Inr (calls, bus)"
    and bases: "\<forall>Base \<in> set (supers ?p (struct ''PlainChild'')). Base \<noteq> struct ''PlainChild'' \<longrightarrow>
               (\<forall>s \<in> set (subscriptions bus Base). handler_call s \<notin> set calls)"
    and once: "\<forall>s \<in> set (subscriptions bus (struct ''PlainChild'')).
                 count_list calls (handler_call s) = 1"
    by blast
  from bases [rule_format, OF b, of "type_erased_subscriber ?p ''on_parent'' 1 (struct ''PlainParent'')"]
  have c1: "call 1 ''on_parent'' (struct ''PlainParent'') \<notin> set calls"
    by (simp add: s handler_call_made)
  from once [rule_format, of "type_erased_subscriber ?p ''on_child'' 2 (struct ''PlainChild'')"]
  have c2: "count_list calls (call 2 ''on_child'' (struct ''PlainChild'')) = 1"
    by (simp add: s handler_call_made)
  from r c n b pub c1 c2 show ?thesis by blast
qed

text \<open>
  Claim C4 as stated fails for its first part: the publish of a \<open>non_polymorphic_event\<close>
  also delivers under the type identifier of \<open>detail::adapted_event<non_polymorphic_event>\<close>,
  and calls a handler that is subscribed for that type.
\<close>

theorem publish_plain_event_reaches_adapter:
  "\<exists>bus :: string basic_eventbus.
     subscribe test_events length basic_eventbus (adapted_event non_polymorphic_event) ''h'' 1
       = Inr (cookie 1 (adapted_event non_polymorphic_event), bus) \<and>
     dispatch_chain test_events non_polymorphic_event
       = Some (typelist (adapted_event non_polymorphic_event)
                 (typelist non_polymorphic_event null_t)) \<and>
     publish test_events bus non_polymorphic_event (object non_polymorphic_event)
       = Inr ([call 1 ''h'' (adapted_event non_polymorphic_event)], bus)"
proof -
  have "reachable test_events length (basic_eventbus :: string basic_eventbus)"
    by (rule reachable.constructed)
  from reachable_subscribed [OF this, of "adapted_event non_polymorphic_event" 1 "''h''"]
  obtain bus :: "string basic_eventbus" where
    sub: "subscribe test_events length basic_eventbus (adapted_event non_polymorphic_event) ''h'' 1
          = Inr (cookie 1 (adapted_event non_polymorphic_event), bus)"
    and s: "subscriptions bus = (\<lambda>k. [])(adapted_event non_polymorphic_event :=
              [type_erased_subscriber test_events ''h'' 1 (adapted_event non_polymorphic_event)])"
    by (auto simp: subscriptions_constructed emplace_def)
  have "publish test_events bus non_polymorphic_event (object non_polymorphic_event)
       = Inr ([call 1 ''h'' (adapted_event non_polymorphic_event)], bus)"
    by (simp add: publish_eq test_chains s deliver_eq accepts_made handler_call_made is_base_of_def)
  with sub test_chains(4) show ?thesis by blast
qed








section \<open>A writer that starts inside a reader\<close>

lemma yield_until_empty_spins:
  assumes "\<not> registry_empty (regs ! i)"
  shows "yield_until_empty regs i = None"
proof (rule ccontr)
  assume "yield_until_empty regs i \<noteq> None"
  then obtain u where ret: "yield_until_empty regs i = Some u" by auto
  have "registry_empty (regs ! i)"
  proof (rule yield_until_empty.raw_induct
           [where P = "\<lambda>regs i y. registry_empty (regs ! i)", rotated])
    show "yield_until_empty regs i = Some u" by (rule ret)
  next
    fix f :: "atomic_reader_registry list \<Rightarrow> nat \<Rightarrow> unit option" and r j y
    assume "\<And>r j y. f r j = Some y \<Longrightarrow> registry_empty (r ! j)"
      and "(if registry_empty (r ! j) then Some () else f r j) = Some y"
    then show "registry_empty (r ! j)" by (cases "registry_empty (r ! j)") auto
  qed
  with assms show False by contradiction
qed

text \<open>
  A \<open>modify\<close> that starts while a reader is inside never returns: this is the
  \<open>subscribe\<close> or \<open>unsubscribe\<close> from within a handler.
\<close>

lemma modify_inside_observe_never_returns:
  "observe (\<lambda>t u. (Inr (modify (\<lambda>(c::unit) t. ((), t, c)) () u), u)) (basic_leftright seed)
     = (Inr None, basic_leftright seed)"
proof -
  let ?s = "scoped_read_indication 0 (basic_leftright seed)"
  have ne: "\<not> registry_empty (m_reader_registries ?s ! 0)"
    by (simp add: scoped_read_indication_def basic_leftright_def registry_empty_def
                  arrive_def atomic_reader_registry_def)
  have e1: "registry_empty (m_reader_registries ?s ! 1)"
    by (simp add: scoped_read_indication_def basic_leftright_def registry_empty_def
                  atomic_reader_registry_def)
  have "toggle_reader_registry (?s\<lparr> m_right := seed, m_leftright := read_right \<rparr>) = None"
    using yield_until_empty_spins [OF ne] yield_until_empty_returns [OF e1]
    by (simp add: toggle_reader_registry_def Let_def scoped_read_indication_def
                  basic_leftright_def and_one_eq)
  then have "modify (\<lambda>(c::unit) t. ((), t, c)) () ?s = None"
    by (simp add: modify_def scoped_read_indication_def basic_leftright_def)
  moreover have "scoped_read_indication_dtor 0 ?s = basic_leftright seed"
    by (simp add: scoped_read_indication_dtor_def scoped_read_indication_def
                  basic_leftright_def depart_arrive)
  ultimately show ?thesis
    by (simp add: observe_def Let_def) (simp add: basic_leftright_def scoped_read_indication_def)
qed


section \<open>The repository's tests, run on the model\<close>

text \<open>\<open>TEST_CASE("derived event")\<close>: the counter reads 1, 3, 4 and 4.\<close>

lemma test_derived_event:
  "\<exists>(b1 :: string basic_eventbus) b2 b3 b4.
     subscribe test_events place basic_eventbus base_event ''c1'' 1 = Inr (cookie 1 base_event, b1) \<and>
     subscribe test_events place b1 derived_event ''c2'' 2 = Inr (cookie 2 derived_event, b2) \<and>
     publish test_events b2 base_event (object base_event)
       = Inr ([call 1 ''c1'' base_event], b2) \<and>
     publish test_events b2 derived_event (object derived_event)
       = Inr ([call 2 ''c2'' derived_event, call 1 ''c1'' base_event], b2) \<and>
     unsubscribe b2 (cookie 1 base_event) = Inr b3 \<and>
     publish test_events b3 derived_event (object derived_event)
       = Inr ([call 2 ''c2'' derived_event], b3) \<and>
     unsubscribe b3 (cookie 2 derived_event) = Inr b4 \<and>
     publish test_events b4 derived_event (object derived_event) = Inr ([], b4)"
proof -
  let ?s1 = "type_erased_subscriber test_events ''c1'' 1 base_event"
  let ?s2 = "type_erased_subscriber test_events ''c2'' 2 derived_event"
  have "reachable test_events place (basic_eventbus :: string basic_eventbus)"
    by (rule reachable.constructed)
  from reachable_subscribed [OF this, of base_event 1 "''c1''"]
  obtain b1 :: "string basic_eventbus" where
    sub1: "subscribe test_events place basic_eventbus base_event ''c1'' 1 = Inr (cookie 1 base_event, b1)"
    and r1: "reachable test_events place b1"
    and s1: "subscriptions b1 = (\<lambda>k. [])(base_event := [?s1])"
    and l1: "live b1 = {1}"
    by (auto simp: subscriptions_constructed emplace_def)
  from reachable_subscribed [OF r1, of derived_event 2 "''c2''"]
  obtain b2 :: "string basic_eventbus" where
    sub2: "subscribe test_events place b1 derived_event ''c2'' 2 = Inr (cookie 2 derived_event, b2)"
    and r2: "reachable test_events place b2"
    and s2: "subscriptions b2 = (\<lambda>k. [])(base_event := [?s1], derived_event := [?s2])"
    by (auto simp: s1 l1 emplace_def)
  from reachable_unsubscribed [OF r2, of "cookie 1 base_event"]
  obtain b3 :: "string basic_eventbus" where
    un3: "unsubscribe b2 (cookie 1 base_event) = Inr b3"
    and r3: "reachable test_events place b3"
    and s3: "subscriptions b3 = (\<lambda>k. [])(base_event := [], derived_event := [?s2])"
    by (auto simp: s2 unsubscribe_functor_eq cookie_def subscriber_id_def type_erased_subscriber_def
                   fun_upd_twist)
  from reachable_unsubscribed [OF r3, of "cookie 2 derived_event"]
  obtain b4 :: "string basic_eventbus" where
    un4: "unsubscribe b3 (cookie 2 derived_event) = Inr b4"
    and s4: "subscriptions b4 = (\<lambda>k. [])(base_event := [], derived_event := [])"
    by (auto simp: s3 unsubscribe_functor_eq cookie_def subscriber_id_def type_erased_subscriber_def)
  note ev = publish_eq test_chains deliver_eq accepts_made handler_call_made test_events_derive
  have p1: "publish test_events b2 base_event (object base_event)
       = Inr ([call 1 ''c1'' base_event], b2)"
    by (simp add: ev s2)
  have p2: "publish test_events b2 derived_event (object derived_event)
       = Inr ([call 2 ''c2'' derived_event, call 1 ''c1'' base_event], b2)"
    by (simp add: ev s2)
  have p3: "publish test_events b3 derived_event (object derived_event)
       = Inr ([call 2 ''c2'' derived_event], b3)"
    by (simp add: ev s3)
  have p4: "publish test_events b4 derived_event (object derived_event) = Inr ([], b4)"
    by (simp add: ev s4)
  from sub1 sub2 p1 p2 un3 p3 un4 p4 show ?thesis by blast
qed

text \<open>
  \<open>TEST_CASE("very derived event")\<close>: a published \<open>base_event\<close> reaches neither handler,
  a \<open>derived_event\<close> the handler for \<open>derived_event\<close>, a \<open>very_derived_event\<close> both.
\<close>

lemma test_very_derived_event:
  "\<exists>(b1 :: string basic_eventbus) b2.
     subscribe test_events place basic_eventbus very_derived_event ''ssvde'' 1
       = Inr (cookie 1 very_derived_event, b1) \<and>
     subscribe test_events place b1 derived_event ''ssde'' 2 = Inr (cookie 2 derived_event, b2) \<and>
     publish test_events b2 base_event (object base_event) = Inr ([], b2) \<and>
     publish test_events b2 derived_event (object derived_event)
       = Inr ([call 2 ''ssde'' derived_event], b2) \<and>
     publish test_events b2 very_derived_event (object very_derived_event)
       = Inr ([call 1 ''ssvde'' very_derived_event, call 2 ''ssde'' derived_event], b2)"
proof -
  let ?s1 = "type_erased_subscriber test_events ''ssvde'' 1 very_derived_event"
  let ?s2 = "type_erased_subscriber test_events ''ssde'' 2 derived_event"
  have "reachable test_events place (basic_eventbus :: string basic_eventbus)"
    by (rule reachable.constructed)
  from reachable_subscribed [OF this, of very_derived_event 1 "''ssvde''"]
  obtain b1 :: "string basic_eventbus" where
    sub1: "subscribe test_events place basic_eventbus very_derived_event ''ssvde'' 1
           = Inr (cookie 1 very_derived_event, b1)"
    and r1: "reachable test_events place b1"
    and s1: "subscriptions b1 = (\<lambda>k. [])(very_derived_event := [?s1])"
    and l1: "live b1 = {1}"
    by (auto simp: subscriptions_constructed emplace_def)
  from reachable_subscribed [OF r1, of derived_event 2 "''ssde''"]
  obtain b2 :: "string basic_eventbus" where
    sub2: "subscribe test_events place b1 derived_event ''ssde'' 2 = Inr (cookie 2 derived_event, b2)"
    and s2: "subscriptions b2 = (\<lambda>k. [])(very_derived_event := [?s1], derived_event := [?s2])"
    by (auto simp: s1 l1 emplace_def)
  note ev = publish_eq test_chains deliver_eq accepts_made handler_call_made test_events_derive
  have p1: "publish test_events b2 base_event (object base_event) = Inr ([], b2)"
    by (simp add: ev s2)
  have p2: "publish test_events b2 derived_event (object derived_event)
       = Inr ([call 2 ''ssde'' derived_event], b2)"
    by (simp add: ev s2)
  have p3: "publish test_events b2 very_derived_event (object very_derived_event)
       = Inr ([call 1 ''ssvde'' very_derived_event, call 2 ''ssde'' derived_event], b2)"
    by (simp add: ev s2)
  from sub1 sub2 p1 p2 p3 show ?thesis by blast
qed

text \<open>\<open>TEST_CASE("non polymorphic event")\<close>: the handler is called once.\<close>

lemma test_non_polymorphic_event:
  "\<exists>b1 :: string basic_eventbus.
     subscribe test_events place basic_eventbus non_polymorphic_event ''ssnpe'' 1
       = Inr (cookie 1 non_polymorphic_event, b1) \<and>
     publish test_events b1 non_polymorphic_event (object non_polymorphic_event)
       = Inr ([call 1 ''ssnpe'' non_polymorphic_event], b1)"
proof -
  have "reachable test_events place (basic_eventbus :: string basic_eventbus)"
    by (rule reachable.constructed)
  from reachable_subscribed [OF this, of non_polymorphic_event 1 "''ssnpe''"]
  obtain b1 :: "string basic_eventbus" where
    sub1: "subscribe test_events place basic_eventbus non_polymorphic_event ''ssnpe'' 1
           = Inr (cookie 1 non_polymorphic_event, b1)"
    and s1: "subscriptions b1 = (\<lambda>k. [])(non_polymorphic_event :=
               [type_erased_subscriber test_events ''ssnpe'' 1 non_polymorphic_event])"
    by (auto simp: subscriptions_constructed emplace_def)
  have dc: "dynamic_cast test_events non_polymorphic_event
              (object (adapted_event non_polymorphic_event))"
    by (simp add: dynamic_cast_def test_events_def)
  have "publish test_events b1 non_polymorphic_event (object non_polymorphic_event)
       = Inr ([call 1 ''ssnpe'' non_polymorphic_event], b1)"
    by (simp add: publish_eq test_chains deliver_eq accepts_made handler_call_made
                  test_events_derive s1 delivered_object_def dc)
  with sub1 show ?thesis by blast
qed


end
